theory Spec2Isabelle
  imports Main
begin

section \<open>Data model of ResourceManager.ts\<close>

text \<open>
  Resources are JavaScript objects that are shared between the flat index
  (\<open>resourcesById\<close>), the top-level list and the \<open>children\<close> arrays of other
  resources, and that are mutated in place (\<open>resource.parent = parent\<close>,
  \<open>siblings.push(resource)\<close>, \<open>siblings.splice(i, 1)\<close>). The model therefore keeps
  an explicit store: objects live in \<open>heap\<close> at addresses, and every reference to a
  resource is an address. \<open>nextAddr\<close> is the first address that has not been
  allocated yet.

  A raw input is the plain record handed to \<open>buildResource\<close>. Only the fields that
  the manager itself reads are kept: \<open>id\<close>, \<open>parentId\<close>, \<open>parent\<close> and
  \<open>children\<close>. The field \<open>id\<close> and the field \<open>parentId\<close> are \<open>None\<close> when the
  JavaScript value is \<open>null\<close> or \<open>undefined\<close>, and otherwise hold the result of
  \<open>String(...)\<close> on it. \<open>assignTo({}, resourceInput)\<close> copies every property of
  the input into the resource, so a \<open>parent\<close> property of the input becomes the
  \<open>parent\<close> of the resource; \<open>rawParent\<close> says whether the input has a truthy one.
  Pass-through fields (\<open>title\<close>, \<open>eventClassName\<close>, \<open>businessHours\<close>) do not
  influence ids, index or tree and are left out.

  The \<open>parent\<close> of a resource is falsy (\<open>NoParent\<close>), a resource, or some other
  truthy value: one copied from the raw input, or a property that the index object
  inherits from \<open>Object.prototype\<close>.
\<close>

type_synonym addr = nat

datatype rawInput =
  RawInput (rawId: "string option") (rawParentId: "string option") (rawParent: bool)
    (rawChildren: "rawInput list")

datatype parentRef = NoParent | ParentResource addr | ParentValue

record resource =
  res_id :: string
  parentId :: "string option"
  parent :: parentRef
  children :: "addr list"

datatype error = TypeError | SyntaxError

text \<open>A result of \<open>removeResourceFromIndex\<close>: the resource object, or the value \<open>false\<close>.
  \<open>JNull\<close> is the JavaScript \<open>null\<close>.\<close>

datatype jsresult = JNull | JFalse | JObject addr

subsection \<open>The environment: moments, sources, responses, callbacks, events\<close>

text \<open>
  A moment (a date of the calendar) is a point in time; \<open>a.isSame(b)\<close> is equality.
  An absent (\<open>undefined\<close> or \<open>null\<close>) moment is \<open>None\<close>.
\<close>

type_synonym moment = int

text \<open>
  A value that reaches the manager from outside as "the resource inputs": an array of
  raw inputs, some other truthy value (an object that is not an array), or a falsy value
  (\<open>undefined\<close>, \<open>null\<close>, \<open>0\<close>, the empty string, \<open>false\<close>).
\<close>

datatype jsdata = DataArray "rawInput list" | DataOther | DataFalsy

record response =
  body :: jsdata
  text_of :: string

text \<open>
  The remote descriptor \<open>{ url, method, success, error }\<close>. The hooks are functions
  of the surrounding application: the \<open>success\<close> hook is kept as the function from the
  inputs to its return value, the \<open>error\<close> hook by its presence (its call is an event).
\<close>

record descriptor =
  url :: string
  httpMethod :: "string option"
  success :: "(jsdata \<Rightarrow> jsdata) option"
  hasErrorHook :: bool

datatype source =
    SourceString string
  | SourceArray "rawInput list"
  | SourceFunction
  | SourceObject descriptor
  | SourceOther

record calendar =
  optResources :: source
  optTimezone :: "string option"
  optStartParam :: string
  optEndParam :: string
  optTimezoneParam :: string

text \<open>
  Callbacks. A caller's function is opaque and identified by a tag; the arrow functions
  that \<open>addResource\<close> and \<open>removeResource\<close> hand to \<open>whenFetchingResolved\<close> are
  closures over the raw input and the caller's optional callback, and over the id.
\<close>

datatype callback =
    UserCallback nat
  | AddResourceClosure rawInput "nat option"
  | RemoveResourceClosure string

datatype paramValue = MomentParam moment | StringParam string

text \<open>
  What the manager does to the outside world, in order: the emitter's \<open>trigger\<close>, the
  calendar's \<open>publiclyTrigger\<close>, \<open>pushLoading\<close> and \<open>popLoading\<close>, calls of callers'
  callbacks, the call of a function source, the remote request and the \<open>success\<close> and
  \<open>error\<close> hooks of a remote descriptor.
  A payload \<open>topLevelResources\<close> is recorded by its content at the time of the call.
\<close>

datatype event =
    Trigger string "addr list option"
  | TriggerResource string addr "addr list option"
  | PubliclyTrigger string "addr list option"
  | CallbackCalled nat "addr list option"
  | ResourceCallbackCalled nat addr
  | SourceResolution "moment option" "moment option"
  | PushLoading
  | PopLoading
  | FunctionSourceCalled "moment option" "moment option" "string option"
  | RequestGet string "(string \<times> paramValue) list"
  | RequestSend string string "(string \<times> paramValue) list"
  | SuccessHookCalled jsdata "response option"
  | ErrorHookCalled "string option" "response option"

subsection \<open>The manager\<close>

text \<open>
  The fields of the class, the store, and the log of events. \<open>resourceGuid\<close> is the
  static counter of the class. \<open>resourcesById\<close> keeps its entries in insertion order,
  as a JavaScript object does for string keys. The arrays created by
  \<open>fetchingResourcesCallbacks = [ callback ]\<close> are shared between the field and the
  closure of the fetch that created them: \<open>callbackArrays g\<close> is the array created by
  the fetch of generation \<open>g\<close>, and the field holds the generation whose array it
  references (\<open>None\<close>: \<open>null\<close> or \<open>undefined\<close>).
\<close>

type_synonym index = "(string \<times> addr) list"

record manager =
  heap :: "addr \<Rightarrow> resource"
  nextAddr :: addr
  resourceGuid :: nat
  calendar :: calendar
  topLevelResources :: "addr list option"
  resourcesById :: index
  fetchId :: nat
  isFetchingInitiated :: bool
  isFetchingResolved :: bool
  fetchingResourcesCallbacks :: "nat option"
  callbackArrays :: "nat \<Rightarrow> callback list"
  currentStart :: "moment option"
  currentEnd :: "moment option"
  events :: "event list"

definition emit :: "event \<Rightarrow> manager \<Rightarrow> manager" where
  "emit e s = s\<lparr>events := events s @ [e]\<rparr>"

text \<open>
  How a call ends when it does not return: with an exception, thrown in the state given,
  or with the overflow of the call stack by a recursion that never returns (a
  \<open>RangeError\<close>, thrown at a depth that the model does not determine, so that the
  state then is not determined either). A call that can end in this way has a result
  of type \<open>abrupt + 'a\<close>.
\<close>

datatype abrupt = Throws error manager | Overflows

section \<open>Operations\<close>

subsection \<open>Construction and cache\<close>

definition initializeCache :: "manager \<Rightarrow> manager" where
  "initializeCache s = s\<lparr>topLevelResources := Some [], resourcesById := []\<rparr>"

text \<open>The state after \<open>new ResourceManager(calendar)\<close>, in a process whose store is
  \<open>h\<close> with first free address \<open>n\<close> and whose static counter stands at \<open>g\<close>.\<close>

definition constructed :: "(addr \<Rightarrow> resource) \<Rightarrow> addr \<Rightarrow> nat \<Rightarrow> calendar \<Rightarrow> manager" where
  "constructed h n g cal =
     initializeCache
       \<lparr>heap = h, nextAddr = n, resourceGuid = g, calendar = cal,
        topLevelResources = None, resourcesById = [],
        fetchId = 0, isFetchingInitiated = False, isFetchingResolved = False,
        fetchingResourcesCallbacks = None, callbackArrays = (\<lambda>g. []),
        currentStart = None, currentEnd = None, events = []\<rparr>"

text \<open>A fresh process: nothing allocated, \<open>static resourceGuid = 1\<close>.\<close>

definition emptyResource :: resource where
  "emptyResource = \<lparr>res_id = [], parentId = None, parent = NoParent, children = []\<rparr>"

definition newManager :: "calendar \<Rightarrow> manager" where
  "newManager cal = constructed (\<lambda>a. emptyResource) 0 1 cal"

definition clear :: "manager \<Rightarrow> manager" where
  "clear s = s\<lparr>isFetchingInitiated := False, topLevelResources := None\<rparr>"

text \<open>
  \<open>this.resourcesById[k]\<close>. The index is a plain object (\<open>{}\<close>), so that a key
  which is not a property of its own is looked up in \<open>Object.prototype\<close>: for the
  names of the properties of \<open>Object.prototype\<close> the result is not \<open>undefined\<close> but
  a function (for \<open>__proto__\<close>, the prototype object itself): a truthy value that is
  not a resource and has no \<open>id\<close> and no \<open>children\<close>.
\<close>

definition objectPrototypeKeys :: "string list" where
  "objectPrototypeKeys =
     [''constructor'', ''hasOwnProperty'', ''isPrototypeOf'', ''propertyIsEnumerable'',
      ''toLocaleString'', ''toString'', ''valueOf'', ''__proto__'',
      ''__defineGetter__'', ''__defineSetter__'', ''__lookupGetter__'', ''__lookupSetter__'']"

datatype property = Undefined | Inherited | Own addr

definition propertyOf :: "index \<Rightarrow> string \<Rightarrow> property" where
  "propertyOf idx k =
     (case map_of idx k of
        Some resource \<Rightarrow> Own resource
      | None \<Rightarrow> if k \<in> set objectPrototypeKeys then Inherited else Undefined)"

definition getResourceById :: "string \<Rightarrow> manager \<Rightarrow> property" where
  "getResourceById k s = propertyOf (resourcesById s) k"

text \<open>
  \<open>getFlatResources\<close> collects the values of \<open>for (let id in this.resourcesById)\<close>.
  The loop visits the own enumerable properties of the index (the properties of
  \<open>Object.prototype\<close> are not enumerable): first the keys that are array indices (the
  decimal numerals, without leading zeros, of the integers from 0 to \<open>2\<^sup>3\<^sup>2 - 2\<close>)
  in ascending numeric order, then the other keys in the order of their insertion.
\<close>

definition isDigit :: "char \<Rightarrow> bool" where
  "isDigit c \<longleftrightarrow> 48 \<le> (of_char c :: nat) \<and> (of_char c :: nat) \<le> 57"

definition decimalValue :: "string \<Rightarrow> nat" where
  "decimalValue k = foldl (\<lambda>n c. 10 * n + ((of_char c :: nat) - 48)) 0 k"

definition arrayIndex :: "string \<Rightarrow> nat option" where
  "arrayIndex k =
     (if k \<noteq> [] \<and> list_all isDigit k \<and> (k = ''0'' \<or> hd k \<noteq> CHR ''0'') \<and>
         decimalValue k < 4294967295
      then Some (decimalValue k) else None)"

definition forInOrder :: "index \<Rightarrow> index" where
  "forInOrder idx =
     sort_key (\<lambda>e. the (arrayIndex (fst e))) (filter (\<lambda>e. arrayIndex (fst e) \<noteq> None) idx) @
     filter (\<lambda>e. arrayIndex (fst e) = None) idx"


subsection \<open>Building resources\<close>

text \<open>\<open>String(n)\<close> for a counter value: its decimal digits.\<close>

definition digit_char :: "nat \<Rightarrow> char" where
  "digit_char d = char_of (48 + d)"

function string_of_nat :: "nat \<Rightarrow> string" where
  "string_of_nat n =
     (if n < 10 then [digit_char n] else string_of_nat (n div 10) @ [digit_char (n mod 10)])"
  by pat_completeness auto
termination
  by (relation "measure id") auto

declare string_of_nat.simps [simp del]

text \<open>
  \<open>ResourceManager.resourceGuid++\<close>. The counter is a JavaScript number (a double).
  It starts at 1 and nothing but this increment changes it, so its value is an integer
  of at most \<open>2\<^sup>5\<^sup>3\<close>: there \<open>2\<^sup>5\<^sup>3 + 1\<close> is not a double and rounds to
  \<open>2\<^sup>5\<^sup>3\<close>, and the increment leaves the counter as it is.
\<close>

definition maxCounter :: nat where
  "maxCounter = 9007199254740992"

definition increment :: "nat \<Rightarrow> nat" where
  "increment g = (if g < maxCounter then g + 1 else g)"

text \<open>
  \<open>resource.id = String(resourceInput.id != null ? resourceInput.id : '_fc' +
  (ResourceManager.resourceGuid++))\<close>: the id and the counter afterwards.
\<close>

definition assignId :: "string option \<Rightarrow> nat \<Rightarrow> string \<times> nat" where
  "assignId i g =
     (case i of Some v \<Rightarrow> (v, g) | None \<Rightarrow> (''_fc'' @ string_of_nat g, increment g))"

definition setParent :: "addr \<Rightarrow> parentRef \<Rightarrow> manager \<Rightarrow> manager" where
  "setParent a p s = s\<lparr>heap := (heap s)(a := (heap s a)\<lparr>parent := p\<rparr>)\<rparr>"

definition setChildren :: "addr \<Rightarrow> addr list \<Rightarrow> manager \<Rightarrow> manager" where
  "setChildren a cs s = s\<lparr>heap := (heap s)(a := (heap s a)\<lparr>children := cs\<rparr>)\<rparr>"

text \<open>
  \<open>buildResource\<close> creates the object (\<open>assignTo({}, resourceInput)\<close>) and sets its
  id (\<open>allocate\<close>: the object is stored at the first free address), then builds the
  children one after the other, setting \<open>child.parent = resource\<close> on each, and stores
  the array of the built children. \<open>buildChildren\<close> is the \<open>.map\<close> over
  \<open>resourceInput.children || []\<close>.
\<close>

definition allocate :: "string option \<Rightarrow> string option \<Rightarrow> bool \<Rightarrow> manager \<Rightarrow> addr \<times> manager" where
  "allocate i p par s =
     (let a = nextAddr s;
          (theId, g) = assignId i (resourceGuid s)
      in (a, s\<lparr>heap := (heap s)(a := \<lparr>res_id = theId, parentId = p,
                                        parent = (if par then ParentValue else NoParent),
                                        children = []\<rparr>),
               nextAddr := a + 1, resourceGuid := g\<rparr>))"

fun buildResource :: "rawInput \<Rightarrow> manager \<Rightarrow> addr \<times> manager"
  and buildChildren :: "rawInput list \<Rightarrow> addr \<Rightarrow> manager \<Rightarrow> addr list \<times> manager" where
  "buildResource (RawInput i p par cs) s =
     (case allocate i p par s of
        (resource, s1) \<Rightarrow>
          (case buildChildren cs resource s1 of
             (kids, s2) \<Rightarrow> (resource, setChildren resource kids s2)))"
| "buildChildren [] resource s = ([], s)"
| "buildChildren (childInput # rest) resource s =
     (case buildResource childInput s of
        (child, s1) \<Rightarrow>
          (case buildChildren rest resource (setParent child (ParentResource resource) s1) of
             (others, s2) \<Rightarrow> (child # others, s2)))"

text \<open>\<open>resourceInputs.map(resourceInput => this.buildResource(resourceInput))\<close>.\<close>

fun buildResources :: "rawInput list \<Rightarrow> manager \<Rightarrow> addr list \<times> manager" where
  "buildResources [] s = ([], s)"
| "buildResources (resourceInput # rest) s =
     (case buildResource resourceInput s of
        (resource, s1) \<Rightarrow>
          (case buildResources rest s1 of
             (others, s2) \<Rightarrow> (resource # others, s2)))"

subsection \<open>The index\<close>

text \<open>
  \<open>addResourceToIndex\<close> recurses through the store: it calls itself on every child of
  the resource it has stored, and the index is threaded through the loop. The two kinds
  of call (on a resource, on the rest of a children array) are the two constructors of
  \<open>indexCall\<close>. The recursion is not structural on any argument, so the function is
  a partial one: \<open>None\<close> stands for a recursion that never returns. The test
  \<open>this.resourcesById[resource.id]\<close> is truthy for an id that the index holds and for
  an id that is the name of an inherited property.
\<close>

datatype indexCall = IndexResource addr | IndexChildren "addr list"

partial_function (option) addToIndex ::
    "(addr \<Rightarrow> resource) \<Rightarrow> indexCall \<Rightarrow> index \<Rightarrow> (bool \<times> index) option" where
  "addToIndex h c idx =
     (case c of
        IndexResource resource \<Rightarrow>
          (case propertyOf idx (res_id (h resource)) of
             Undefined \<Rightarrow>
               Option.bind
                 (addToIndex h (IndexChildren (children (h resource)))
                    (idx @ [(res_id (h resource), resource)]))
                 (\<lambda>r. Some (True, snd r))
           | Inherited \<Rightarrow> Some (False, idx)
           | Own other \<Rightarrow> Some (False, idx))
      | IndexChildren [] \<Rightarrow> Some (True, idx)
      | IndexChildren (child # rest) \<Rightarrow>
          Option.bind (addToIndex h (IndexResource child) idx)
            (\<lambda>r. addToIndex h (IndexChildren rest) (snd r)))"

definition addResourceToIndex :: "addr \<Rightarrow> manager \<Rightarrow> (bool \<times> manager) option" where
  "addResourceToIndex resource s =
     map_option (\<lambda>r. (fst r, s\<lparr>resourcesById := snd r\<rparr>))
       (addToIndex (heap s) (IndexResource resource) (resourcesById s))"

text \<open>\<open>delete this.resourcesById[resourceId]\<close>.\<close>

definition delete_key :: "string \<Rightarrow> index \<Rightarrow> index" where
  "delete_key k idx = filter (\<lambda>e. fst e \<noteq> k) idx"

text \<open>
  \<open>removeResourceFromIndex\<close> looks the id up, deletes the entry and calls itself on
  the id of every child of the resource it found; \<open>removeChildrenFromIndex\<close> is that
  loop. The store is only read. It returns the resource, or \<open>false\<close>. For an id that
  is the name of an inherited property the value found is truthy, \<open>delete\<close> does
  nothing, and the loop over \<open>resource.children\<close>, which is \<open>undefined\<close>, throws a
  \<open>TypeError\<close>. The result is \<open>Inl\<close> of the index at the time of the exception, or
  \<open>Inr\<close> of the value returned and the index.
\<close>

function removeResourceFromIndex ::
    "(addr \<Rightarrow> resource) \<Rightarrow> string \<Rightarrow> index \<Rightarrow> index + (jsresult \<times> index)"
  and removeChildrenFromIndex :: "(addr \<Rightarrow> resource) \<Rightarrow> addr list \<Rightarrow> index \<Rightarrow> index + index" where
  "removeResourceFromIndex h resourceId idx =
     (case propertyOf idx resourceId of
        Own resource \<Rightarrow>
          (case removeChildrenFromIndex h (children (h resource)) (delete_key resourceId idx) of
             Inl thrown \<Rightarrow> Inl thrown
           | Inr idx' \<Rightarrow> Inr (JObject resource, idx'))
      | Inherited \<Rightarrow> Inl idx
      | Undefined \<Rightarrow> Inr (JFalse, idx))"
| "removeChildrenFromIndex h [] idx = Inr idx"
| "removeChildrenFromIndex h (child # rest) idx =
     (case removeResourceFromIndex h (res_id (h child)) idx of
        Inl thrown \<Rightarrow> Inl thrown
      | Inr r \<Rightarrow> removeChildrenFromIndex h rest (snd r))"
  by pat_completeness auto

text \<open>The index that a removal leaves, whether it returns or throws.\<close>

definition indexAfter :: "index + (jsresult \<times> index) \<Rightarrow> index" where
  "indexAfter r = (case r of Inl idx \<Rightarrow> idx | Inr x \<Rightarrow> snd x)"

definition indexAfterChildren :: "index + index \<Rightarrow> index" where
  "indexAfterChildren r = (case r of Inl idx \<Rightarrow> idx | Inr idx \<Rightarrow> idx)"

lemma length_delete_key_le: "length (delete_key k idx) \<le> length idx"
  by (simp add: delete_key_def)

lemma length_delete_key_less:
  "map_of idx k = Some a \<Longrightarrow> length (delete_key k idx) < length idx"
  unfolding delete_key_def
  by (induction idx) (auto simp: less_Suc_eq_le split: if_splits)

lemma propertyOf_Own: "propertyOf idx k = Own a \<longleftrightarrow> map_of idx k = Some a"
  by (simp add: propertyOf_def split: option.splits)

lemma removeResourceFromIndex_length_dom:
  "removeResourceFromIndex_removeChildrenFromIndex_dom (Inl (h, k, idx)) \<Longrightarrow>
     length (indexAfter (removeResourceFromIndex h k idx)) \<le> length idx"
  "removeResourceFromIndex_removeChildrenFromIndex_dom (Inr (h, cs, idx)) \<Longrightarrow>
     length (indexAfterChildren (removeChildrenFromIndex h cs idx)) \<le> length idx"
proof (induction h k idx and h cs idx rule: removeResourceFromIndex_removeChildrenFromIndex.pinduct)
  case (1 h resourceId idx)
  show ?case
  proof (cases "propertyOf idx resourceId")
    case Undefined
    with 1(1) show ?thesis by (simp add: removeResourceFromIndex.psimps indexAfter_def)
  next
    case Inherited
    with 1(1) show ?thesis by (simp add: removeResourceFromIndex.psimps indexAfter_def)
  next
    case (Own a)
    from 1(2)[OF Own] length_delete_key_le[of resourceId idx]
    have "length (indexAfterChildren
            (removeChildrenFromIndex h (children (h a)) (delete_key resourceId idx))) \<le> length idx"
      by linarith
    with 1(1) Own show ?thesis
      by (simp add: removeResourceFromIndex.psimps indexAfter_def indexAfterChildren_def
          split: sum.splits)
  qed
next
  case (2 h idx)
  then show ?case by (simp add: removeChildrenFromIndex.psimps indexAfterChildren_def)
next
  case (3 h child rest idx)
  show ?case
  proof (cases "removeResourceFromIndex h (res_id (h child)) idx")
    case (Inl thrown)
    with 3(1,2) show ?thesis
      by (simp add: removeChildrenFromIndex.psimps indexAfter_def indexAfterChildren_def)
  next
    case (Inr r)
    from 3(2) Inr have "length (snd r) \<le> length idx" by (simp add: indexAfter_def)
    with 3(3)[OF Inr] have
      "length (indexAfterChildren (removeChildrenFromIndex h rest (snd r))) \<le> length idx"
      by linarith
    with 3(1) Inr show ?thesis by (simp add: removeChildrenFromIndex.psimps)
  qed
qed

termination removeResourceFromIndex
proof (relation "measures [\<lambda>x. case x of Inl (h, k, idx) \<Rightarrow> length idx | Inr (h, cs, idx) \<Rightarrow> length idx,
                          \<lambda>x. case x of Inl (h, k, idx) \<Rightarrow> 0 | Inr (h, cs, idx) \<Rightarrow> Suc (length cs)]",
       goal_cases)
  case 1
  show ?case by simp
next
  case (2 h resourceId idx a)
  then show ?case by (simp add: length_delete_key_less propertyOf_Own)
next
  case (3 h child rest idx)
  show ?case by simp
next
  case (4 h child rest idx r)
  from removeResourceFromIndex_length_dom(1)[OF 4(2)] 4(1)
  show ?case by (auto simp: indexAfter_def)
qed

declare removeResourceFromIndex.simps [simp del]

subsection \<open>The tree\<close>

text \<open>
  \<open>addResourceToTree\<close>. \<open>parentId\<close> of the code is
  \<open>String(resource['parentId'] != null ? resource['parentId'] : '')\<close>. With no top-level
  list (\<open>topLevelResources\<close> is \<open>null\<close> after \<open>clear()\<close>), \<open>siblings.push\<close> throws.
  When the \<open>parentId\<close> is the name of an inherited property, the value found is
  truthy: it becomes \<open>resource.parent\<close>, its \<open>children\<close> is \<open>undefined\<close>, and
  \<open>siblings.push\<close> throws.
\<close>

definition parentIdString :: "resource \<Rightarrow> string" where
  "parentIdString r = (case parentId r of Some v \<Rightarrow> v | None \<Rightarrow> [])"

definition pushChild :: "addr \<Rightarrow> addr \<Rightarrow> manager \<Rightarrow> manager" where
  "pushChild p a s = s\<lparr>heap := (heap s)(p := (heap s p)\<lparr>children := children (heap s p) @ [a]\<rparr>)\<rparr>"

definition addResourceToTree :: "addr \<Rightarrow> manager \<Rightarrow> abrupt + (bool \<times> manager)" where
  "addResourceToTree resource s =
     (if parent (heap s resource) = NoParent then
        (let pid = parentIdString (heap s resource) in
         if pid \<noteq> [] then
           (case propertyOf (resourcesById s) pid of
              Own p \<Rightarrow>
                Inr (True, pushChild p resource (setParent resource (ParentResource p) s))
            | Inherited \<Rightarrow> Inl (Throws TypeError (setParent resource ParentValue s))
            | Undefined \<Rightarrow> Inr (False, s))
         else
           (case topLevelResources s of
              Some siblings \<Rightarrow> Inr (True, s\<lparr>topLevelResources := Some (siblings @ [resource])\<rparr>)
            | None \<Rightarrow> Inl (Throws TypeError s)))
      else Inr (True, s))"

text \<open>
  \<open>removeResourceFromTree(resource, siblings)\<close>. The array \<open>siblings\<close> is either the
  top-level list or the \<open>children\<close> array of a resource. The loop position \<open>i\<close> is an
  argument; the recursion into \<open>sibling.children\<close> follows the store, so the function
  is a partial one (\<open>None\<close>: the search never returns, which it cannot do unless the
  children links reachable from \<open>siblings\<close> form a cycle).
\<close>

datatype siblingsRef = TopLevel | ChildrenOf addr

definition siblingsOf :: "manager \<Rightarrow> siblingsRef \<Rightarrow> addr list" where
  "siblingsOf s r =
     (case r of
        TopLevel \<Rightarrow> (case topLevelResources s of Some l \<Rightarrow> l | None \<Rightarrow> [])
      | ChildrenOf p \<Rightarrow> children (heap s p))"

definition splice1 :: "nat \<Rightarrow> 'a list \<Rightarrow> 'a list" where
  "splice1 i l = take i l @ drop (Suc i) l"

definition spliceSiblings :: "siblingsRef \<Rightarrow> nat \<Rightarrow> manager \<Rightarrow> manager" where
  "spliceSiblings r i s =
     (case r of
        TopLevel \<Rightarrow> s\<lparr>topLevelResources := map_option (splice1 i) (topLevelResources s)\<rparr>
      | ChildrenOf p \<Rightarrow> setChildren p (splice1 i (children (heap s p))) s)"

partial_function (option) removeResourceFromTree ::
    "addr \<Rightarrow> siblingsRef \<Rightarrow> nat \<Rightarrow> manager \<Rightarrow> (bool \<times> manager) option" where
  "removeResourceFromTree resource siblings i s =
     (if i < length (siblingsOf s siblings) then
        (let sibling = siblingsOf s siblings ! i in
         if sibling = resource then
           Some (True, spliceSiblings siblings i (setParent resource NoParent s))
         else
           Option.bind (removeResourceFromTree resource (ChildrenOf sibling) 0 s)
             (\<lambda>r. if fst r then Some r
                  else removeResourceFromTree resource siblings (i + 1) (snd r)))
      else Some (False, s))"

subsection \<open>Adding and removing a resource, once the fetch has resolved\<close>

text \<open>The body of the arrow function that \<open>addResource\<close> hands to
  \<open>whenFetchingResolved\<close>.\<close>

definition addResourceNow :: "rawInput \<Rightarrow> nat option \<Rightarrow> manager \<Rightarrow> abrupt + manager" where
  "addResourceNow resourceInput cb s =
     (let (resource, s1) = buildResource resourceInput s in
      case addResourceToIndex resource s1 of
        None \<Rightarrow> Inl Overflows
      | Some (indexed, s2) \<Rightarrow>
          if indexed then
            (case addResourceToTree resource s2 of
               Inl e \<Rightarrow> Inl e
             | Inr (attached, s3) \<Rightarrow>
                 (let s4 = emit (TriggerResource ''add'' resource (topLevelResources s3)) s3 in
                  case cb of
                    Some c \<Rightarrow> Inr (emit (ResourceCallbackCalled c resource) s4)
                  | None \<Rightarrow> Inr s4))
          else Inr s2)"

text \<open>The body of the arrow function of \<open>removeResource\<close>. The call
  \<open>this.removeResourceFromTree(resource)\<close> takes the top-level list as \<open>siblings\<close>;
  reading \<open>siblings.length\<close> of \<open>null\<close> throws.\<close>

definition removeResourceNow :: "string \<Rightarrow> manager \<Rightarrow> abrupt + manager" where
  "removeResourceNow k s =
     (case removeResourceFromIndex (heap s) k (resourcesById s) of
        Inl idx \<Rightarrow> Inl (Throws TypeError (s\<lparr>resourcesById := idx\<rparr>))
      | Inr (JObject resource, idx) \<Rightarrow>
          (let s1 = s\<lparr>resourcesById := idx\<rparr> in
           case topLevelResources s1 of
             None \<Rightarrow> Inl (Throws TypeError s1)
           | Some l \<Rightarrow>
               (case removeResourceFromTree resource TopLevel 0 s1 of
                  None \<Rightarrow> Inl Overflows
                | Some (found, s2) \<Rightarrow>
                    Inr (emit (TriggerResource ''remove'' resource (topLevelResources s2)) s2)))
      | Inr (other, idx) \<Rightarrow> Inr (s\<lparr>resourcesById := idx\<rparr>))"

subsection \<open>Callbacks\<close>

text \<open>Calling a callback with \<open>this.topLevelResources\<close>.\<close>

definition runCallback :: "callback \<Rightarrow> manager \<Rightarrow> abrupt + manager" where
  "runCallback cb s =
     (case cb of
        UserCallback c \<Rightarrow> Inr (emit (CallbackCalled c (topLevelResources s)) s)
      | AddResourceClosure resourceInput c \<Rightarrow> addResourceNow resourceInput c s
      | RemoveResourceClosure k \<Rightarrow> removeResourceNow k s)"

text \<open>
  Modelled from the spec: \<open>applyAll\<close> is a helper of the \<open>fullcalendar\<close> package
  and is not part of the sources. The spec has the completion "invoke every queued
  callback with the resulting top-level tree", "in registration order, synchronously
  within one resolution batch, and only once". An exception of a callback ends the batch.
\<close>

fun applyAll :: "callback list \<Rightarrow> manager \<Rightarrow> abrupt + manager" where
  "applyAll [] s = Inr s"
| "applyAll (f # fs) s = (case runCallback f s of Inl e \<Rightarrow> Inl e | Inr s1 \<Rightarrow> applyAll fs s1)"

definition whenFetchingResolved :: "callback \<Rightarrow> manager \<Rightarrow> abrupt + manager" where
  "whenFetchingResolved cb s =
     (if isFetchingResolved s then runCallback cb s
      else
        (case fetchingResourcesCallbacks s of
           Some g \<Rightarrow> Inr (s\<lparr>callbackArrays := (callbackArrays s)(g := callbackArrays s g @ [cb])\<rparr>)
         | None \<Rightarrow> Inl (Throws TypeError s)))"

definition addResource :: "rawInput \<Rightarrow> nat option \<Rightarrow> manager \<Rightarrow> abrupt + manager" where
  "addResource resourceInput cb s =
     (if isFetchingInitiated s then whenFetchingResolved (AddResourceClosure resourceInput cb) s
      else Inr s)"

datatype idOrResource = IdArg string | ResourceArg addr

text \<open>The id that \<open>removeResource\<close> takes from its argument: the \<open>id\<close> of an object,
  or the argument itself.\<close>

definition resourceIdOf :: "idOrResource \<Rightarrow> manager \<Rightarrow> string" where
  "resourceIdOf arg s = (case arg of ResourceArg a \<Rightarrow> res_id (heap s a) | IdArg v \<Rightarrow> v)"

definition removeResource :: "idOrResource \<Rightarrow> manager \<Rightarrow> abrupt + manager" where
  "removeResource arg s =
     (let k = resourceIdOf arg s in
      if isFetchingInitiated s then whenFetchingResolved (RemoveResourceClosure k) s
      else Inr s)"

subsection \<open>Setting all resources\<close>

text \<open>The two loops of \<open>setResources\<close>: the first collects \<open>validResources\<close>.\<close>

fun indexResources :: "addr list \<Rightarrow> manager \<Rightarrow> (addr list \<times> manager) option" where
  "indexResources [] s = Some ([], s)"
| "indexResources (resource # rest) s =
     (case addResourceToIndex resource s of
        None \<Rightarrow> None
      | Some (indexed, s1) \<Rightarrow>
          (case indexResources rest s1 of
             None \<Rightarrow> None
           | Some (valid, s2) \<Rightarrow> Some (if indexed then resource # valid else valid, s2)))"

fun treeResources :: "addr list \<Rightarrow> manager \<Rightarrow> abrupt + manager" where
  "treeResources [] s = Inr s"
| "treeResources (resource # rest) s =
     (case addResourceToTree resource s of
        Inl e \<Rightarrow> Inl e
      | Inr (attached, s1) \<Rightarrow> treeResources rest s1)"

text \<open>\<open>resourceInputs.map\<close> throws unless \<open>resourceInputs\<close> is an array; the cache
  has been initialized by then.\<close>

definition setResources :: "jsdata \<Rightarrow> manager \<Rightarrow> abrupt + manager" where
  "setResources resourceInputs s =
     (let wasSet = (topLevelResources s \<noteq> None);
          s0 = initializeCache s
      in case resourceInputs of
           DataArray inputs \<Rightarrow>
             (let (resources, s1) = buildResources inputs s0 in
              case indexResources resources s1 of
                None \<Rightarrow> Inl Overflows
              | Some (validResources, s2) \<Rightarrow>
                  (case treeResources validResources s2 of
                     Inl e \<Rightarrow> Inl e
                   | Inr s3 \<Rightarrow>
                       Inr (emit (PubliclyTrigger ''resourcesSet'' (topLevelResources s3))
                             (emit (Trigger (if wasSet then ''reset'' else ''set'')
                                      (topLevelResources s3)) s3))))
         | DataOther \<Rightarrow> Inl (Throws TypeError s0)
         | DataFalsy \<Rightarrow> Inl (Throws TypeError s0))"

definition resetCurrentResources :: "manager \<Rightarrow> manager" where
  "resetCurrentResources s =
     (if topLevelResources s \<noteq> None then emit (Trigger ''reset'' (topLevelResources s)) s else s)"

subsection \<open>The fetch coordinator\<close>

text \<open>
  The arrow function that \<open>fetchResources\<close> hands to \<open>fetchResourceInputs\<close>. It closes
  over \<open>currentFetchId\<close> and over the array \<open>callbacks\<close> that its fetch created.
\<close>

definition fetchCallback :: "nat \<Rightarrow> jsdata \<Rightarrow> manager \<Rightarrow> abrupt + manager" where
  "fetchCallback currentFetchId resourceInputs s =
     (if currentFetchId = fetchId s then
        (case setResources resourceInputs s of
           Inl e \<Rightarrow> Inl e
         | Inr s1 \<Rightarrow>
             applyAll (callbackArrays s1 currentFetchId)
               (s1\<lparr>isFetchingResolved := True, fetchingResourcesCallbacks := None\<rparr>))
      else Inr s)"

text \<open>\<open>String.prototype.toUpperCase\<close> on the letters \<open>a\<close> to \<open>z\<close>.\<close>

definition toUpperCase :: "string \<Rightarrow> string" where
  "toUpperCase v =
     map (\<lambda>c. if 97 \<le> (of_char c :: nat) \<and> (of_char c :: nat) \<le> 122
              then char_of ((of_char c :: nat) - 32) else c) v"

definition requestParams :: "calendar \<Rightarrow> moment option \<Rightarrow> moment option \<Rightarrow> (string \<times> paramValue) list" where
  "requestParams cal start endDate =
     (case (start, endDate) of
        (Some a, Some b) \<Rightarrow>
          [(optStartParam cal, MomentParam a), (optEndParam cal, MomentParam b)] @
          (case optTimezone cal of
             Some tz \<Rightarrow> if tz \<noteq> [] \<and> tz \<noteq> ''local'' then [(optTimezoneParam cal, StringParam tz)] else []
           | None \<Rightarrow> [])
      | other \<Rightarrow> [])"

definition sendRequest :: "descriptor \<Rightarrow> moment option \<Rightarrow> moment option \<Rightarrow> manager \<Rightarrow> manager" where
  "sendRequest src start endDate s =
     (let s1 = emit PushLoading s;
          params = requestParams (calendar s) start endDate
      in case httpMethod src of
           None \<Rightarrow> emit (RequestGet (url src) params) s1
         | Some m \<Rightarrow>
             if m = [] \<or> toUpperCase m = ''GET'' then emit (RequestGet (url src) params) s1
             else emit (RequestSend m (url src) params) s1)"

text \<open>
  \<open>fetchResourceInputs\<close>, called by \<open>fetchResources\<close> with the arrow function of
  generation \<open>currentFetchId\<close>. An array source and a source of no known shape call the
  callback at once. A function source and a remote source return with the resolution
  outstanding; the resolution arrives later as \<open>functionSourceCompletes\<close> or
  \<open>requestEnd\<close>.
\<close>

definition fetchResourceInputs :: "nat \<Rightarrow> moment option \<Rightarrow> moment option \<Rightarrow> manager \<Rightarrow> abrupt + manager" where
  "fetchResourceInputs currentFetchId start endDate s =
     (let s0 = emit (SourceResolution start endDate) s in
      case optResources (calendar s0) of
        SourceString u \<Rightarrow>
          Inr (sendRequest \<lparr>url = u, httpMethod = None, success = None, hasErrorHook = False\<rparr>
                 start endDate s0)
      | SourceArray inputs \<Rightarrow> fetchCallback currentFetchId (DataArray inputs) s0
      | SourceFunction \<Rightarrow>
          Inr (emit (FunctionSourceCalled start endDate (optTimezone (calendar s0)))
                 (emit PushLoading s0))
      | SourceObject src \<Rightarrow> Inr (sendRequest src start endDate s0)
      | SourceOther \<Rightarrow> fetchCallback currentFetchId (DataArray []) s0)"

text \<open>The function source calls the completion callback of generation \<open>currentFetchId\<close>.\<close>

definition functionSourceCompletes :: "nat \<Rightarrow> jsdata \<Rightarrow> manager \<Rightarrow> abrupt + manager" where
  "functionSourceCompletes currentFetchId resourceInputs s =
     fetchCallback currentFetchId resourceInputs (emit PopLoading s)"

text \<open>
  The handler given to \<open>theRequest.end\<close>, for the request of generation
  \<open>currentFetchId\<close> to the source \<open>src\<close>. \<open>parse\<close> is \<open>JSON.parse\<close>: \<open>None\<close> when
  it throws a \<open>SyntaxError\<close>. \<open>err\<close> is the error (\<open>None\<close>: \<open>null\<close>), \<open>res\<close>
  the response (\<open>None\<close>: \<open>undefined\<close>). The \<open>success\<close> hook, when the descriptor
  has one, is called with the inputs and the response; an array that it returns
  replaces the inputs.
\<close>

definition parsedInputs :: "(string \<Rightarrow> jsdata option) \<Rightarrow> string option \<Rightarrow> response option \<Rightarrow> error + jsdata" where
  "parsedInputs parse err res =
     (if err = None then
        (case res of
           None \<Rightarrow> Inl TypeError
         | Some r \<Rightarrow>
             if body r \<noteq> DataFalsy then Inr (body r)
             else if text_of r \<noteq> [] then
               (case parse (text_of r) of None \<Rightarrow> Inl SyntaxError | Some v \<Rightarrow> Inr v)
             else Inr DataFalsy)
      else Inr DataFalsy)"

definition requestEnd ::
    "(string \<Rightarrow> jsdata option) \<Rightarrow> nat \<Rightarrow> descriptor \<Rightarrow> string option \<Rightarrow> response option \<Rightarrow> manager \<Rightarrow> abrupt + manager" where
  "requestEnd parse currentFetchId src err res s =
     (let s1 = emit PopLoading s in
      case parsedInputs parse err res of
        Inl e \<Rightarrow> Inl (Throws e s1)
      | Inr resourceInputs \<Rightarrow>
          if resourceInputs \<noteq> DataFalsy then
            (case success src of
               Some f \<Rightarrow>
                 fetchCallback currentFetchId
                   (case f resourceInputs of DataArray xs \<Rightarrow> DataArray xs | other \<Rightarrow> resourceInputs)
                   (emit (SuccessHookCalled resourceInputs res) s1)
             | None \<Rightarrow> fetchCallback currentFetchId resourceInputs s1)
          else
            fetchCallback currentFetchId (DataArray [])
              (if hasErrorHook src then emit (ErrorHookCalled err res) s1 else s1))"

definition fetchResources :: "moment option \<Rightarrow> moment option \<Rightarrow> callback \<Rightarrow> manager \<Rightarrow> abrupt + manager" where
  "fetchResources start endDate cb s =
     (let currentFetchId = fetchId s + 1 in
      fetchResourceInputs currentFetchId start endDate
        (s\<lparr>fetchId := currentFetchId,
           isFetchingInitiated := True,
           isFetchingResolved := False,
           fetchingResourcesCallbacks := Some currentFetchId,
           callbackArrays := (callbackArrays s)(currentFetchId := [cb])\<rparr>))"

text \<open>
  \<open>getResources\<close>. \<open>isSameRange\<close> compares the requested range with
  \<open>currentStart\<close> and \<open>currentEnd\<close>; \<open>end.isSame\<close> on an absent \<open>end\<close> throws.
  No method of the class assigns \<open>currentStart\<close> or \<open>currentEnd\<close>.
\<close>

definition isSameRange :: "moment option \<Rightarrow> moment option \<Rightarrow> manager \<Rightarrow> error + bool" where
  "isSameRange start endDate s =
     (if start = None \<and> currentStart s = None then Inr True
      else
        (case (start, currentStart s) of
           (Some a, Some b) \<Rightarrow>
             if a = b then
               (case endDate of None \<Rightarrow> Inl TypeError | Some e \<Rightarrow> Inr (Some e = currentEnd s))
             else Inr False
         | other \<Rightarrow> Inr False))"

definition getResources :: "moment option \<Rightarrow> moment option \<Rightarrow> callback \<Rightarrow> manager \<Rightarrow> abrupt + manager" where
  "getResources start endDate cb s =
     (case isSameRange start endDate s of
        Inl e \<Rightarrow> Inl (Throws e s)
      | Inr same \<Rightarrow>
          if \<not> isFetchingInitiated s \<or> \<not> same then fetchResources start endDate cb s
          else whenFetchingResolved cb s)"

section \<open>Reachability in the tree\<close>


section \<open>Example inputs\<close>

text \<open>The default options of a calendar whose \<open>resources\<close> option is \<open>src\<close>.\<close>

definition calendarWith :: "source \<Rightarrow> calendar" where
  "calendarWith src =
     \<lparr>optResources = src, optTimezone = None, optStartParam = ''start'',
      optEndParam = ''end'', optTimezoneParam = ''timezone''\<rparr>"

text \<open>The manager of a fresh process whose \<open>resources\<close> option is the array
  \<open>inputs\<close>, after \<open>fetchResources(undefined, undefined, callback)\<close>.\<close>

definition loaded :: "rawInput list \<Rightarrow> manager" where
  "loaded inputs =
     projr (fetchResources None None (UserCallback 0) (newManager (calendarWith (SourceArray inputs))))"

section \<open>Relations between the states before and after an operation\<close>

text \<open>The fields of the fetch coordinator and the options are the same in both
  states.\<close>

definition sameCoordinator :: "manager \<Rightarrow> manager \<Rightarrow> bool" where
  "sameCoordinator s s' \<longleftrightarrow>
     calendar s' = calendar s \<and> fetchId s' = fetchId s \<and>
     isFetchingInitiated s' = isFetchingInitiated s \<and>
     isFetchingResolved s' = isFetchingResolved s \<and>
     fetchingResourcesCallbacks s' = fetchingResourcesCallbacks s \<and>
     callbackArrays s' = callbackArrays s \<and>
     currentStart s' = currentStart s \<and> currentEnd s' = currentEnd s"

definition isSourceResolution :: "event \<Rightarrow> bool" where
  "isSourceResolution e = (case e of SourceResolution a b \<Rightarrow> True | other \<Rightarrow> False)"

text \<open>The number of source resolutions so far.\<close>

definition resolutions :: "manager \<Rightarrow> nat" where
  "resolutions s = length (filter isSourceResolution (events s))"

text \<open>
  What every operation on the data (building, indexing, attaching, detaching) keeps:
  the coordinator, the ids of the objects that exist, the events so far; the counter
  and the first free address do not decrease; no source is resolved.
\<close>

definition dataStep :: "manager \<Rightarrow> manager \<Rightarrow> bool" where
  "dataStep s s' \<longleftrightarrow>
     sameCoordinator s s' \<and>
     resourceGuid s \<le> resourceGuid s' \<and> nextAddr s \<le> nextAddr s' \<and>
     (\<forall>a. a < nextAddr s \<longrightarrow> res_id (heap s' a) = res_id (heap s a)) \<and>
     (\<exists>es. events s' = events s @ es \<and> filter isSourceResolution es = [])"

text \<open>A data step that emits no event.\<close>

definition quietStep :: "manager \<Rightarrow> manager \<Rightarrow> bool" where
  "quietStep s s' \<longleftrightarrow>
     sameCoordinator s s' \<and>
     resourceGuid s \<le> resourceGuid s' \<and> nextAddr s \<le> nextAddr s' \<and>
     (\<forall>a. a < nextAddr s \<longrightarrow> res_id (heap s' a) = res_id (heap s a)) \<and>
     events s' = events s"

text \<open>
  What every operation of the manager keeps: the options and the recorded range; the
  counter and the first free address do not decrease; the objects that exist keep
  their ids.
\<close>

definition grows :: "manager \<Rightarrow> manager \<Rightarrow> bool" where
  "grows s s' \<longleftrightarrow>
     calendar s' = calendar s \<and> currentStart s' = currentStart s \<and>
     currentEnd s' = currentEnd s \<and>
     resourceGuid s \<le> resourceGuid s' \<and> nextAddr s \<le> nextAddr s' \<and>
     (\<forall>a. a < nextAddr s \<longrightarrow> res_id (heap s' a) = res_id (heap s a))"

text \<open>\<open>JSON.parse\<close> on the three texts of the examples: it accepts \<open>[]\<close> and
  \<open>null\<close> and rejects \<open><html>\<close>.\<close>

definition parseExample :: "string \<Rightarrow> jsdata option" where
  "parseExample t =
     (if t = ''[]'' then Some (DataArray [])
      else if t = ''null'' then Some DataFalsy
      else None)"

definition remoteExample :: descriptor where
  "remoteExample = \<lparr>url = ''/resources'', httpMethod = None, success = None, hasErrorHook = True\<rparr>"

text \<open>Two calls of \<open>getResources\<close> with the same present range, and two calls without
  a range, on a fresh manager with an array source.\<close>

definition sameRangeOnce :: manager where
  "sameRangeOnce =
     projr (getResources (Some 1) (Some 2) (UserCallback 0)
              (newManager (calendarWith (SourceArray [RawInput (Some ''a'') None False []]))))"

definition sameRangeTwice :: manager where
  "sameRangeTwice = projr (getResources (Some 1) (Some 2) (UserCallback 1) sameRangeOnce)"

definition noRangeOnce :: manager where
  "noRangeOnce =
     projr (getResources None None (UserCallback 0)
              (newManager (calendarWith (SourceArray [RawInput (Some ''a'') None False []]))))"

definition noRangeTwice :: manager where
  "noRangeTwice = projr (getResources None None (UserCallback 1) noRangeOnce)"

text \<open>Running one operation after another; an exception ends the run.\<close>

definition andThen :: "abrupt + 'a \<Rightarrow> ('a \<Rightarrow> abrupt + 'b) \<Rightarrow> abrupt + 'b" where
  "andThen r f = (case r of Inl e \<Rightarrow> Inl e | Inr x \<Rightarrow> f x)"

text \<open>
  Two overlapping fetches: \<open>fetchResources\<close> with callback \<open>cb1\<close>, a callback \<open>q1\<close>
  registered by \<open>whenFetchingResolved\<close> while that fetch is outstanding, then
  \<open>fetchResources\<close> with callback \<open>cb2\<close> and a callback \<open>q2\<close> registered while the
  second fetch is outstanding.
\<close>

definition overlappingFetches ::
    "moment option \<Rightarrow> moment option \<Rightarrow> callback \<Rightarrow> callback \<Rightarrow>
     moment option \<Rightarrow> moment option \<Rightarrow> callback \<Rightarrow> callback \<Rightarrow> manager \<Rightarrow> abrupt + manager" where
  "overlappingFetches start1 end1 cb1 q1 start2 end2 cb2 q2 s =
     andThen (fetchResources start1 end1 cb1 s) (\<lambda>s1.
     andThen (whenFetchingResolved q1 s1) (\<lambda>s2.
     andThen (fetchResources start2 end2 cb2 s2) (\<lambda>s3.
     whenFetchingResolved q2 s3)))"

text \<open>Two overlapping fetches on a fresh manager with a function source.\<close>

definition overlapExample :: manager where
  "overlapExample =
     projr (overlappingFetches None None (UserCallback 1) (UserCallback 2)
              None None (UserCallback 3) (UserCallback 4)
              (newManager (calendarWith SourceFunction)))"





text \<open>The state in which a call ends, by return or by exception.\<close>

fun outcome :: "abrupt + manager \<Rightarrow> manager option" where
  "outcome (Inr s) = Some s"
| "outcome (Inl (Throws e s)) = Some s"
| "outcome (Inl Overflows) = None"




section \<open>The ids that a removal from the index deletes\<close>

text \<open>
  \<open>removedIds h idx k\<close>: the id \<open>k\<close>, when the index holds it, and then, again and
  again, the id of every child of the resource that the index holds under an id already
  in the set, when the index holds that id too.
\<close>

inductive_set removedIds :: "(addr \<Rightarrow> resource) \<Rightarrow> index \<Rightarrow> string \<Rightarrow> string set"
  for h :: "addr \<Rightarrow> resource" and idx :: index and k :: string where
  root: "map_of idx k = Some a \<Longrightarrow> k \<in> removedIds h idx k"
| child: "k' \<in> removedIds h idx k \<Longrightarrow> map_of idx k' = Some a \<Longrightarrow> c \<in> set (children (h a)) \<Longrightarrow>
          map_of idx (res_id (h c)) = Some b \<Longrightarrow> res_id (h c) \<in> removedIds h idx k"

text \<open>The same closure from a set \<open>S\<close> of ids, without passing through the ids in
  \<open>D\<close> (the ids deleted so far).\<close>

inductive_set reachIds :: "(addr \<Rightarrow> resource) \<Rightarrow> index \<Rightarrow> string set \<Rightarrow> string set \<Rightarrow> string set"
  for h :: "addr \<Rightarrow> resource" and idx :: index and D :: "string set" and S :: "string set" where
  start: "k \<in> S \<Longrightarrow> k \<notin> D \<Longrightarrow> map_of idx k = Some a \<Longrightarrow> k \<in> reachIds h idx D S"
| step: "k' \<in> reachIds h idx D S \<Longrightarrow> map_of idx k' = Some a \<Longrightarrow> c \<in> set (children (h a)) \<Longrightarrow>
         res_id (h c) \<notin> D \<Longrightarrow> map_of idx (res_id (h c)) = Some b \<Longrightarrow>
         res_id (h c) \<in> reachIds h idx D S"

definition without :: "string set \<Rightarrow> index \<Rightarrow> index" where
  "without D idx = filter (\<lambda>e. fst e \<notin> D) idx"




section \<open>Sequences of calls\<close>

text \<open>
  A call of a method of the manager, or an event that reaches it: the completion of a
  function source and the end of a remote request.
\<close>

datatype operation =
    GetResources "moment option" "moment option" callback
  | FetchResources "moment option" "moment option" callback
  | WhenFetchingResolved callback
  | FunctionSourceCompletes nat jsdata
  | RequestEnd nat descriptor "string option" "response option"
  | InitializeCache
  | SetResources jsdata
  | ResetCurrentResources
  | Clear
  | AddResource rawInput "nat option"
  | AddResourceToIndex addr
  | AddResourceToTree addr
  | RemoveResource idOrResource
  | RemoveResourceFromIndex string
  | RemoveResourceFromTree addr
  | BuildResource rawInput
  | TriggerEvent event

fun perform :: "(string \<Rightarrow> jsdata option) \<Rightarrow> operation \<Rightarrow> manager \<Rightarrow> abrupt + manager" where
  "perform parse (GetResources start endDate cb) s = getResources start endDate cb s"
| "perform parse (FetchResources start endDate cb) s = fetchResources start endDate cb s"
| "perform parse (WhenFetchingResolved cb) s = whenFetchingResolved cb s"
| "perform parse (FunctionSourceCompletes g d) s = functionSourceCompletes g d s"
| "perform parse (RequestEnd g src err res) s = requestEnd parse g src err res s"
| "perform parse InitializeCache s = Inr (initializeCache s)"
| "perform parse (SetResources d) s = setResources d s"
| "perform parse ResetCurrentResources s = Inr (resetCurrentResources s)"
| "perform parse Clear s = Inr (clear s)"
| "perform parse (AddResource resourceInput cb) s = addResource resourceInput cb s"
| "perform parse (AddResourceToIndex a) s =
     (case addResourceToIndex a s of None \<Rightarrow> Inl Overflows | Some r \<Rightarrow> Inr (snd r))"
| "perform parse (AddResourceToTree a) s =
     (case addResourceToTree a s of Inl e \<Rightarrow> Inl e | Inr r \<Rightarrow> Inr (snd r))"
| "perform parse (RemoveResource arg) s = removeResource arg s"
| "perform parse (RemoveResourceFromIndex k) s =
     (case removeResourceFromIndex (heap s) k (resourcesById s) of
        Inl idx \<Rightarrow> Inl (Throws TypeError (s\<lparr>resourcesById := idx\<rparr>))
      | Inr r \<Rightarrow> Inr (s\<lparr>resourcesById := snd r\<rparr>))"
| "perform parse (RemoveResourceFromTree a) s =
     (case topLevelResources s of
        None \<Rightarrow> Inl (Throws TypeError s)
      | Some l \<Rightarrow>
          (case removeResourceFromTree a TopLevel 0 s of
             None \<Rightarrow> Inl Overflows
           | Some r \<Rightarrow> Inr (snd r)))"
| "perform parse (BuildResource resourceInput) s = Inr (snd (buildResource resourceInput s))"
| "perform parse (TriggerEvent e) s = Inr (emit e s)"

fun performAll :: "(string \<Rightarrow> jsdata option) \<Rightarrow> operation list \<Rightarrow> manager \<Rightarrow> abrupt + manager" where
  "performAll parse [] s = Inr s"
| "performAll parse (op # ops) s = andThen (perform parse op s) (performAll parse ops)"

section \<open>A process with several managers\<close>

text \<open>
  The store of objects and the static counter \<open>ResourceManager.resourceGuid\<close> belong
  to the process and are shared by all managers; the other fields belong to one manager.
  A process is the store, its first free address, the counter and the list of the
  managers that have been constructed. A manager that is called runs with the store and
  the counter of the process (\<open>enter\<close>) and leaves them to the process when the call
  ends (\<open>leave\<close>), by return or by exception.
\<close>

record process =
  store :: "addr \<Rightarrow> resource"
  firstFree :: addr
  counter :: nat
  instances :: "manager list"

definition enter :: "process \<Rightarrow> nat \<Rightarrow> manager" where
  "enter p i = (instances p ! i)\<lparr>heap := store p, nextAddr := firstFree p, resourceGuid := counter p\<rparr>"

definition leave :: "process \<Rightarrow> nat \<Rightarrow> manager \<Rightarrow> process" where
  "leave p i m =
     p\<lparr>store := heap m, firstFree := nextAddr m, counter := resourceGuid m,
       instances := (instances p)[i := m]\<rparr>"

text \<open>
  A step of the process: \<open>new ResourceManager(calendar)\<close>, or a call on the manager
  number \<open>i\<close>. A call on a manager that does not exist is no step. After the overflow
  of the call stack the state of the process is not determined (\<open>None\<close>).
\<close>

datatype processStep = Construct calendar | Call nat operation

fun stepProcess :: "(string \<Rightarrow> jsdata option) \<Rightarrow> processStep \<Rightarrow> process \<Rightarrow> process option" where
  "stepProcess parse (Construct cal) p =
     Some (p\<lparr>instances := instances p @ [constructed (store p) (firstFree p) (counter p) cal]\<rparr>)"
| "stepProcess parse (Call i op) p =
     (if i < length (instances p) then
        (case outcome (perform parse op (enter p i)) of
           Some m \<Rightarrow> Some (leave p i m)
         | None \<Rightarrow> None)
      else Some p)"

fun runProcess :: "(string \<Rightarrow> jsdata option) \<Rightarrow> processStep list \<Rightarrow> process \<Rightarrow> process option" where
  "runProcess parse [] p = Some p"
| "runProcess parse (st # sts) p =
     (case stepProcess parse st p of
        None \<Rightarrow> None
      | Some p' \<Rightarrow> runProcess parse sts p')"

text \<open>The counter and the first free address do not decrease, and the objects that
  exist keep their ids.\<close>

definition processGrows :: "process \<Rightarrow> process \<Rightarrow> bool" where
  "processGrows p p' \<longleftrightarrow>
     counter p \<le> counter p' \<and> firstFree p \<le> firstFree p' \<and>
     (\<forall>a. a < firstFree p \<longrightarrow> res_id (store p' a) = res_id (store p a))"

text \<open>A fresh process in which two managers have been constructed.\<close>

definition twoManagers :: process where
  "twoManagers =
     \<lparr>store = (\<lambda>a. emptyResource), firstFree = 0, counter = 1,
      instances = [newManager (calendarWith SourceFunction), newManager (calendarWith SourceFunction)]\<rparr>"

section \<open>The ids that a build assigns\<close>

text \<open>
  The raw inputs in the order in which \<open>buildResource\<close> creates their resources: an
  input before its children, the children from first to last.
\<close>

fun flat :: "rawInput \<Rightarrow> rawInput list"
  and flats :: "rawInput list \<Rightarrow> rawInput list" where
  "flat (RawInput i p par cs) = RawInput i p par cs # flats cs"
| "flats [] = []"
| "flats (c # cs) = flat c @ flats cs"

text \<open>The counter after ids have been assigned for the raw ids \<open>is\<close>, one after the
  other, and the ids assigned.\<close>

fun guidAfter :: "nat \<Rightarrow> string option list \<Rightarrow> nat" where
  "guidAfter g [] = g"
| "guidAfter g (i # is) = guidAfter (snd (assignId i g)) is"

fun assignIds :: "nat \<Rightarrow> string option list \<Rightarrow> string list" where
  "assignIds g [] = []"
| "assignIds g (i # is) = fst (assignId i g) # assignIds (snd (assignId i g)) is"

text \<open>The ids of the resources created between two states, in the order of their
  creation.\<close>

definition builtIds :: "manager \<Rightarrow> manager \<Rightarrow> string list" where
  "builtIds s s' = map (\<lambda>b. res_id (heap s' b)) [nextAddr s ..< nextAddr s']"

text \<open>Two inputs without ids, the second with a child without id.\<close>

definition anonymousInput :: rawInput where
  "anonymousInput = RawInput None None False []"

definition anonymousFamily :: rawInput where
  "anonymousFamily = RawInput None None False [RawInput None None False [], RawInput (Some ''x'') None False []]"

text \<open>
  The first manager of the process builds a resource without id; then the second
  manager loads a resource without id, a call of \<open>setResources\<close> with a value that is
  no array ends in an exception, and a third manager is constructed; then the third
  manager builds a resource without id.
\<close>

definition firstBuild :: manager where
  "firstBuild = snd (buildResource anonymousInput (enter twoManagers 0))"

definition betweenBuilds :: "processStep list" where
  "betweenBuilds =
     [Call 1 (SetResources (DataArray [anonymousInput])),
      Call 1 (SetResources DataOther),
      Construct (calendarWith SourceFunction)]"

definition laterProcess :: process where
  "laterProcess = the (runProcess parseExample betweenBuilds (leave twoManagers 0 firstBuild))"

definition secondBuild :: manager where
  "secondBuild = snd (buildResource anonymousInput (enter laterProcess 2))"

text \<open>A manager in a process whose counter has reached \<open>2\<^sup>5\<^sup>3\<close>.\<close>

definition exhausted :: manager where
  "exhausted = constructed (\<lambda>a. emptyResource) 0 maxCounter (calendarWith SourceFunction)"

section \<open>Trees in the store\<close>

text \<open>
  A tree of addresses. The store represents a tree when the \<open>children\<close> array of the
  object at every node holds the roots of the node's subtrees, in order.
\<close>

datatype atree = ANode (root: addr) (subtrees: "atree list")



text \<open>The tree that \<open>buildResource\<close> creates for a raw input when the first free
  address is \<open>n\<close>: an object is created before the objects of its children.\<close>

fun treeAt :: "addr \<Rightarrow> rawInput \<Rightarrow> atree"
  and treesAt :: "addr \<Rightarrow> rawInput list \<Rightarrow> atree list" where
  "treeAt n (RawInput i p par cs) = ANode n (treesAt (Suc n) cs)"
| "treesAt n [] = []"
| "treesAt n (c # cs) = treeAt n c # treesAt (n + length (flat c)) cs"

text \<open>The index entries of a list of objects, and the ids of a list of objects.\<close>

definition entries :: "(addr \<Rightarrow> resource) \<Rightarrow> addr list \<Rightarrow> index" where
  "entries h as = map (\<lambda>b. (res_id (h b), b)) as"


text \<open>An index that holds at least the entries of another one.\<close>

definition extends :: "index \<Rightarrow> index \<Rightarrow> bool" where
  "extends idx idx' \<longleftrightarrow> (\<forall>k v. map_of idx k = Some v \<longrightarrow> map_of idx' k = Some v)"



section \<open>Evaluation rules\<close>

text \<open>The equation of a partial function, one rule for each shape of call.\<close>

lemma addToIndex_resource:
  "addToIndex h (IndexResource a) idx =
     (case propertyOf idx (res_id (h a)) of
        Undefined \<Rightarrow>
          Option.bind (addToIndex h (IndexChildren (children (h a))) (idx @ [(res_id (h a), a)]))
            (\<lambda>r. Some (True, snd r))
      | Inherited \<Rightarrow> Some (False, idx)
      | Own other \<Rightarrow> Some (False, idx))"
  by (subst addToIndex.simps) simp

lemma addToIndex_nil: "addToIndex h (IndexChildren []) idx = Some (True, idx)"
  by (subst addToIndex.simps) simp

lemma addToIndex_cons:
  "addToIndex h (IndexChildren (c # cs)) idx =
     Option.bind (addToIndex h (IndexResource c) idx) (\<lambda>r. addToIndex h (IndexChildren cs) (snd r))"
  by (subst addToIndex.simps) simp

lemma removeResourceFromTree_end:
  "\<not> i < length (siblingsOf s ref) \<Longrightarrow> removeResourceFromTree a ref i s = Some (False, s)"
  by (subst removeResourceFromTree.simps) simp

lemma removeResourceFromTree_hit:
  "i < length (siblingsOf s ref) \<Longrightarrow> siblingsOf s ref ! i = a \<Longrightarrow>
     removeResourceFromTree a ref i s = Some (True, spliceSiblings ref i (setParent a NoParent s))"
  by (subst removeResourceFromTree.simps) simp

lemma removeResourceFromTree_miss:
  "i < length (siblingsOf s ref) \<Longrightarrow> siblingsOf s ref ! i \<noteq> a \<Longrightarrow>
     removeResourceFromTree a ref i s =
       Option.bind (removeResourceFromTree a (ChildrenOf (siblingsOf s ref ! i)) 0 s)
         (\<lambda>r. if fst r then Some r else removeResourceFromTree a ref (i + 1) (snd r))"
  by (subst removeResourceFromTree.simps) (simp add: Let_def)

lemma set_forInOrder [simp]: "set (forInOrder idx) = set idx"
  by (auto simp: forInOrder_def)


lemmas eval_defs = newManager_def constructed_def initializeCache_def fetchResources_def
  fetchResourceInputs_def fetchCallback_def setResources_def emit_def calendarWith_def
  addResourceToIndex_def addToIndex_resource addToIndex_nil addToIndex_cons
  addResourceToTree_def parentIdString_def setParent_def setChildren_def pushChild_def
  assignId_def allocate_def runCallback_def Let_def emptyResource_def getResourceById_def
  removeResource_def resourceIdOf_def whenFetchingResolved_def removeResourceNow_def
  removeResourceFromIndex.simps delete_key_def addResource_def addResourceNow_def loaded_def
  getResources_def isSameRange_def overlappingFetches_def andThen_def
  functionSourceCompletes_def propertyOf_def objectPrototypeKeys_def increment_def
  maxCounter_def

section \<open>What the operations leave unchanged\<close>

lemma sameCoordinator_refl [simp]: "sameCoordinator s s"
  by (simp add: sameCoordinator_def)

lemma sameCoordinator_trans:
  "sameCoordinator s t \<Longrightarrow> sameCoordinator t u \<Longrightarrow> sameCoordinator s u"
  by (simp add: sameCoordinator_def)

lemma dataStep_refl [simp]: "dataStep s s"
  by (simp add: dataStep_def)

lemma quietStep_refl [simp]: "quietStep s s"
  by (simp add: quietStep_def)

lemma quietStep_trans:
  assumes "quietStep s t" and "quietStep t u"
  shows "quietStep s u"
proof -
  have ids: "\<forall>a. a < nextAddr s \<longrightarrow> res_id (heap u a) = res_id (heap s a)"
    using assms unfolding quietStep_def by (metis less_le_trans)
  from assms ids show ?thesis
    unfolding quietStep_def using sameCoordinator_trans by (metis le_trans)
qed

lemma quietStep_dataStep: "quietStep s s' \<Longrightarrow> dataStep s s'"
  by (simp add: quietStep_def dataStep_def)

lemma dataStep_trans:
  assumes "dataStep s t" and "dataStep t u"
  shows "dataStep s u"
proof -
  from assms obtain es fs where
    e: "events t = events s @ es" "filter isSourceResolution es = []"
      "events u = events t @ fs" "filter isSourceResolution fs = []"
    unfolding dataStep_def by blast
  then have "events u = events s @ (es @ fs) \<and> filter isSourceResolution (es @ fs) = []"
    by simp
  then have ev: "\<exists>gs. events u = events s @ gs \<and> filter isSourceResolution gs = []"
    by blast
  have ids: "\<forall>a. a < nextAddr s \<longrightarrow> res_id (heap u a) = res_id (heap s a)"
    using assms unfolding dataStep_def by (metis less_le_trans)
  from assms ev ids show ?thesis
    unfolding dataStep_def using sameCoordinator_trans by (meson le_trans)
qed

lemma dataStep_emit: "\<not> isSourceResolution e \<Longrightarrow> dataStep s (emit e s)"
  by (simp add: emit_def dataStep_def sameCoordinator_def)

lemma quietStep_allocate: "allocate i p par s = (a, s') \<Longrightarrow> quietStep s s'"
  by (auto simp: allocate_def Let_def quietStep_def sameCoordinator_def assignId_def increment_def
      split: prod.splits option.splits)

lemma quietStep_setChildren [simp]: "quietStep s (setChildren a cs s)"
  by (simp add: setChildren_def quietStep_def sameCoordinator_def)

lemma quietStep_setParent [simp]: "quietStep s (setParent a p s)"
  by (simp add: setParent_def quietStep_def sameCoordinator_def)

lemma quietStep_pushChild [simp]: "quietStep s (pushChild p a s)"
  by (simp add: pushChild_def quietStep_def sameCoordinator_def)

lemma quietStep_spliceSiblings [simp]: "quietStep s (spliceSiblings r i s)"
  by (cases r) (simp_all add: spliceSiblings_def setChildren_def quietStep_def sameCoordinator_def)

lemma quietStep_index [simp]: "quietStep s (s\<lparr>resourcesById := idx\<rparr>)"
  by (simp add: quietStep_def sameCoordinator_def)

lemma quietStep_topLevel [simp]: "quietStep s (s\<lparr>topLevelResources := l\<rparr>)"
  by (simp add: quietStep_def sameCoordinator_def)

lemma quietStep_initializeCache [simp]: "quietStep s (initializeCache s)"
  by (simp add: initializeCache_def quietStep_def sameCoordinator_def)

lemma quietStep_build:
  "buildResource r s = (a, s') \<Longrightarrow> quietStep s s'"
  "buildChildren rs p s = (as, s') \<Longrightarrow> quietStep s s'"
proof (induction r s and rs p s arbitrary: a s' and as s' rule: buildResource_buildChildren.induct)
  case (1 i p par cs s)
  obtain r s1 where al: "allocate i p par s = (r, s1)" by (cases "allocate i p par s")
  obtain kids s2 where bc: "buildChildren cs r s1 = (kids, s2)" by (cases "buildChildren cs r s1")
  from 1(2) al bc have s': "s' = setChildren r kids s2" by auto
  have "quietStep s s1" using al by (rule quietStep_allocate)
  moreover have "quietStep s1 s2" using 1(1)[OF al[symmetric] bc] .
  ultimately show ?case unfolding s' using quietStep_setChildren quietStep_trans by blast
next
  case (2 resource s)
  then show ?case by simp
next
  case (3 childInput rest resource s)
  obtain c s1 where br: "buildResource childInput s = (c, s1)" by (cases "buildResource childInput s")
  obtain others s2 where bc: "buildChildren rest resource (setParent c (ParentResource resource) s1) = (others, s2)"
    by (cases "buildChildren rest resource (setParent c (ParentResource resource) s1)")
  from 3(3) br bc have s': "s' = s2" by auto
  have a: "quietStep s s1" using 3(1)[OF br] .
  have b: "quietStep (setParent c (ParentResource resource) s1) s2" using 3(2)[OF br[symmetric] bc] .
  show ?case unfolding s' using a b quietStep_setParent quietStep_trans by blast
qed

lemma quietStep_buildResources: "buildResources rs s = (as, s') \<Longrightarrow> quietStep s s'"
proof (induction rs arbitrary: s as s')
  case Nil
  then show ?case by simp
next
  case (Cons r rs)
  obtain a s1 where br: "buildResource r s = (a, s1)" by (cases "buildResource r s")
  obtain others s2 where bs: "buildResources rs s1 = (others, s2)" by (cases "buildResources rs s1")
  from Cons.prems br bs have "s' = s2" by auto
  with quietStep_build(1)[OF br] Cons.IH[OF bs] show ?case using quietStep_trans by blast
qed

lemma quietStep_addResourceToIndex: "addResourceToIndex a s = Some (b, s') \<Longrightarrow> quietStep s s'"
  by (auto simp: addResourceToIndex_def)

lemma quietStep_addResourceToTree: "addResourceToTree a s = Inr (b, s') \<Longrightarrow> quietStep s s'"
  by (auto simp: addResourceToTree_def Let_def intro: quietStep_trans[OF quietStep_setParent quietStep_pushChild]
      split: option.splits if_splits property.splits)

lemma removeResourceFromTree_quietStep:
  assumes "removeResourceFromTree a ref i s = Some r"
  shows "quietStep s (snd r) \<and> (\<not> fst r \<longrightarrow> snd r = s)"
proof (rule removeResourceFromTree.raw_induct[OF _ assms])
  fix f a ref i s r
  assume IH: "\<And>a ref i s r. f a ref i s = Some r \<Longrightarrow> quietStep s (snd r) \<and> (\<not> fst r \<longrightarrow> snd r = s)"
    and body: "(if i < length (siblingsOf s ref) then
        (let sibling = siblingsOf s ref ! i in
         if sibling = a then
           Some (True, spliceSiblings ref i (setParent a NoParent s))
         else
           Option.bind (f a (ChildrenOf sibling) 0 s)
             (\<lambda>r. if fst r then Some r
                  else f a ref (i + 1) (snd r)))
      else Some (False, s)) = Some r"
  show "quietStep s (snd r) \<and> (\<not> fst r \<longrightarrow> snd r = s)"
  proof (cases "i < length (siblingsOf s ref)")
    case False
    with body show ?thesis by auto
  next
    case True
    show ?thesis
    proof (cases "siblingsOf s ref ! i = a")
      case hit: True
      with True body have "r = (True, spliceSiblings ref i (setParent a NoParent s))"
        by (auto simp: Let_def)
      then show ?thesis
        using quietStep_trans[OF quietStep_setParent quietStep_spliceSiblings] by simp
    next
      case miss: False
      with True body obtain r1 where
        r1: "f a (ChildrenOf (siblingsOf s ref ! i)) 0 s = Some r1" and
        r: "(if fst r1 then Some r1 else f a ref (i + 1) (snd r1)) = Some r"
        by (auto simp: Let_def split: Option.bind_splits)
      from IH[OF r1] have h1: "quietStep s (snd r1)" "\<not> fst r1 \<longrightarrow> snd r1 = s" by simp_all
      show ?thesis
      proof (cases "fst r1")
        case True
        with r have "r = r1" by simp
        with h1 True show ?thesis by simp
      next
        case False
        with r h1 have "f a ref (i + 1) s = Some r" by simp
        from IH[OF this] show ?thesis .
      qed
    qed
  qed
qed

lemma quietStep_indexResources: "indexResources rs s = Some (valid, s') \<Longrightarrow> quietStep s s'"
proof (induction rs arbitrary: s valid s')
  case Nil
  then show ?case by simp
next
  case (Cons r rs)
  from Cons.prems obtain b s1 v where
    1: "addResourceToIndex r s = Some (b, s1)" and 2: "indexResources rs s1 = Some (v, s')"
    by (auto split: option.splits)
  from quietStep_addResourceToIndex[OF 1] Cons.IH[OF 2] show ?case by (rule quietStep_trans)
qed

lemma quietStep_treeResources: "treeResources rs s = Inr s' \<Longrightarrow> quietStep s s'"
proof (induction rs arbitrary: s)
  case Nil
  then show ?case by simp
next
  case (Cons r rs)
  from Cons.prems obtain b s1 where
    1: "addResourceToTree r s = Inr (b, s1)" and 2: "treeResources rs s1 = Inr s'"
    by (auto split: sum.splits)
  from quietStep_addResourceToTree[OF 1] Cons.IH[OF 2] show ?case by (rule quietStep_trans)
qed

lemma setResources_InrE:
  assumes "setResources d s = Inr s'"
  obtains inputs resources s1 valid s2 s3 where
    "d = DataArray inputs"
    "buildResources inputs (initializeCache s) = (resources, s1)"
    "indexResources resources s1 = Some (valid, s2)"
    "treeResources valid s2 = Inr s3"
    "s' = emit (PubliclyTrigger ''resourcesSet'' (topLevelResources s3))
            (emit (Trigger (if topLevelResources s \<noteq> None then ''reset'' else ''set'')
                     (topLevelResources s3)) s3)"
proof -
  from assms obtain inputs where d: "d = DataArray inputs"
    by (cases d) (simp_all add: setResources_def Let_def)
  obtain resources s1 where b: "buildResources inputs (initializeCache s) = (resources, s1)"
    by (cases "buildResources inputs (initializeCache s)")
  from assms d b obtain valid s2 where i: "indexResources resources s1 = Some (valid, s2)"
    by (cases "indexResources resources s1") (auto simp: setResources_def Let_def)
  from assms d b i obtain s3 where t: "treeResources valid s2 = Inr s3"
    by (cases "treeResources valid s2") (auto simp: setResources_def Let_def)
  from assms d b i t have
    "s' = emit (PubliclyTrigger ''resourcesSet'' (topLevelResources s3))
            (emit (Trigger (if topLevelResources s \<noteq> None then ''reset'' else ''set'')
                     (topLevelResources s3)) s3)"
    by (simp add: setResources_def Let_def)
  with d b i t that show thesis by blast
qed

lemma setResources_quiet_part:
  assumes "buildResources inputs (initializeCache s) = (resources, s1)"
    "indexResources resources s1 = Some (valid, s2)"
    "treeResources valid s2 = Inr s3"
  shows "quietStep s s3"
proof -
  have a: "quietStep s (initializeCache s)" by simp
  have b: "quietStep (initializeCache s) s1" using assms(1) by (rule quietStep_buildResources)
  have c: "quietStep s1 s2" using assms(2) by (rule quietStep_indexResources)
  have d: "quietStep s2 s3" using assms(3) by (rule quietStep_treeResources)
  show ?thesis
    by (rule quietStep_trans[OF a quietStep_trans[OF b quietStep_trans[OF c d]]])
qed

lemma setResources_events:
  assumes "setResources d s = Inr s'"
  shows "events s' = events s @
           [Trigger (if topLevelResources s \<noteq> None then ''reset'' else ''set'') (topLevelResources s'),
            PubliclyTrigger ''resourcesSet'' (topLevelResources s')]"
proof -
  from assms obtain inputs resources s1 valid s2 s3 where
    b: "buildResources inputs (initializeCache s) = (resources, s1)"
      "indexResources resources s1 = Some (valid, s2)"
      "treeResources valid s2 = Inr s3" and
    s': "s' = emit (PubliclyTrigger ''resourcesSet'' (topLevelResources s3))
            (emit (Trigger (if topLevelResources s \<noteq> None then ''reset'' else ''set'')
                     (topLevelResources s3)) s3)"
    by (rule setResources_InrE)
  from setResources_quiet_part[OF b] have "events s3 = events s" by (simp add: quietStep_def)
  with s' show ?thesis by (simp add: emit_def)
qed

lemma dataStep_setResources:
  assumes "setResources d s = Inr s'"
  shows "dataStep s s'"
proof -
  from assms obtain inputs resources s1 valid s2 s3 where
    b: "buildResources inputs (initializeCache s) = (resources, s1)"
      "indexResources resources s1 = Some (valid, s2)"
      "treeResources valid s2 = Inr s3" and
    s': "s' = emit (PubliclyTrigger ''resourcesSet'' (topLevelResources s3))
            (emit (Trigger (if topLevelResources s \<noteq> None then ''reset'' else ''set'')
                     (topLevelResources s3)) s3)"
    by (rule setResources_InrE)
  have "dataStep s s3" using setResources_quiet_part[OF b] by (rule quietStep_dataStep)
  moreover have "dataStep s3 (emit (Trigger (if topLevelResources s \<noteq> None then ''reset'' else ''set'')
                     (topLevelResources s3)) s3)"
    by (rule dataStep_emit) (simp add: isSourceResolution_def)
  moreover have "dataStep (emit (Trigger (if topLevelResources s \<noteq> None then ''reset'' else ''set'')
                     (topLevelResources s3)) s3) s'"
    unfolding s' by (rule dataStep_emit) (simp add: isSourceResolution_def)
  ultimately show ?thesis using dataStep_trans by blast
qed

lemma addResourceNow_InrE:
  assumes "addResourceNow resourceInput cb s = Inr s'"
  obtains (duplicate) resource s1 where
      "buildResource resourceInput s = (resource, s1)"
      "addResourceToIndex resource s1 = Some (False, s')"
  | (added) resource s1 s2 attached s3 where
      "buildResource resourceInput s = (resource, s1)"
      "addResourceToIndex resource s1 = Some (True, s2)"
      "addResourceToTree resource s2 = Inr (attached, s3)"
      "s' = (case cb of
               Some c \<Rightarrow> emit (ResourceCallbackCalled c resource)
                          (emit (TriggerResource ''add'' resource (topLevelResources s3)) s3)
             | None \<Rightarrow> emit (TriggerResource ''add'' resource (topLevelResources s3)) s3)"
proof -
  obtain resource s1 where b: "buildResource resourceInput s = (resource, s1)"
    by (cases "buildResource resourceInput s")
  from assms b obtain indexed s2 where i: "addResourceToIndex resource s1 = Some (indexed, s2)"
    by (cases "addResourceToIndex resource s1") (auto simp: addResourceNow_def)
  show thesis
  proof (cases indexed)
    case False
    with assms b i have "s' = s2" by (simp add: addResourceNow_def)
    with b i False duplicate show thesis by simp
  next
    case True
    with assms b i obtain attached s3 where t: "addResourceToTree resource s2 = Inr (attached, s3)"
      by (cases "addResourceToTree resource s2") (auto simp: addResourceNow_def)
    from assms b i True t have
      "s' = (case cb of
               Some c \<Rightarrow> emit (ResourceCallbackCalled c resource)
                          (emit (TriggerResource ''add'' resource (topLevelResources s3)) s3)
             | None \<Rightarrow> emit (TriggerResource ''add'' resource (topLevelResources s3)) s3)"
      by (simp add: addResourceNow_def Let_def split: option.splits)
    with b i True t added show thesis by simp
  qed
qed

lemma dataStep_addResourceNow:
  assumes "addResourceNow resourceInput cb s = Inr s'"
  shows "dataStep s s'"
  using assms
proof (cases rule: addResourceNow_InrE)
  case (duplicate resource s1)
  show ?thesis
    by (rule quietStep_dataStep[OF quietStep_trans[OF quietStep_build(1)[OF duplicate(1)]
          quietStep_addResourceToIndex[OF duplicate(2)]]])
next
  case (added resource s1 s2 attached s3)
  have q: "dataStep s s3"
    by (rule quietStep_dataStep[OF quietStep_trans[OF quietStep_build(1)[OF added(1)]
          quietStep_trans[OF quietStep_addResourceToIndex[OF added(2)]
            quietStep_addResourceToTree[OF added(3)]]]])
  let ?s4 = "emit (TriggerResource ''add'' resource (topLevelResources s3)) s3"
  have e1: "dataStep s3 ?s4" by (rule dataStep_emit) (simp add: isSourceResolution_def)
  show ?thesis
  proof (cases cb)
    case None
    with added(4) have "s' = ?s4" by simp
    with dataStep_trans[OF q e1] show ?thesis by simp
  next
    case (Some c)
    have e2: "dataStep ?s4 (emit (ResourceCallbackCalled c resource) ?s4)"
      by (rule dataStep_emit) (simp add: isSourceResolution_def)
    from Some added(4) have "s' = emit (ResourceCallbackCalled c resource) ?s4" by simp
    with dataStep_trans[OF q dataStep_trans[OF e1 e2]] show ?thesis by simp
  qed
qed

lemma removeResourceFromIndex_Undefined:
  "propertyOf idx k = Undefined \<Longrightarrow> removeResourceFromIndex h k idx = Inr (JFalse, idx)"
  by (simp add: removeResourceFromIndex.simps)

lemma removeResourceFromIndex_Inherited:
  "propertyOf idx k = Inherited \<Longrightarrow> removeResourceFromIndex h k idx = Inl idx"
  by (simp add: removeResourceFromIndex.simps)

lemma removeResourceFromIndex_Own:
  "propertyOf idx k = Own a \<Longrightarrow>
     removeResourceFromIndex h k idx =
       (case removeChildrenFromIndex h (children (h a)) (delete_key k idx) of
          Inl thrown \<Rightarrow> Inl thrown
        | Inr idx' \<Rightarrow> Inr (JObject a, idx'))"
  by (simp add: removeResourceFromIndex.simps)

lemma removeResourceFromIndex_InrE:
  assumes "removeResourceFromIndex h k idx = Inr (r, idx')"
  obtains (missing) "propertyOf idx k = Undefined" "r = JFalse" "idx' = idx"
  | (found) a where "propertyOf idx k = Own a" "r = JObject a"
      "removeChildrenFromIndex h (children (h a)) (delete_key k idx) = Inr idx'"
proof (cases "propertyOf idx k")
  case Undefined
  with assms have "r = JFalse" "idx' = idx" by (simp_all add: removeResourceFromIndex_Undefined)
  with Undefined show thesis by (rule missing)
next
  case Inherited
  with assms show thesis by (simp add: removeResourceFromIndex_Inherited)
next
  case (Own a)
  with assms have "r = JObject a"
    "removeChildrenFromIndex h (children (h a)) (delete_key k idx) = Inr idx'"
    by (auto simp: removeResourceFromIndex_Own split: sum.splits)
  with Own show thesis by (rule found)
qed

lemma removeResourceNow_InrE:
  assumes "removeResourceNow k s = Inr s'"
  obtains (missing) "propertyOf (resourcesById s) k = Undefined" "s' = s"
  | (removed) resource idx l found s2 where
      "removeResourceFromIndex (heap s) k (resourcesById s) = Inr (JObject resource, idx)"
      "map_of (resourcesById s) k = Some resource"
      "topLevelResources s = Some l"
      "removeResourceFromTree resource TopLevel 0 (s\<lparr>resourcesById := idx\<rparr>) = Some (found, s2)"
      "s' = emit (TriggerResource ''remove'' resource (topLevelResources s2)) s2"
proof (cases "removeResourceFromIndex (heap s) k (resourcesById s)")
  case (Inl idx)
  with assms show thesis by (simp add: removeResourceNow_def)
next
  case (Inr x)
  obtain r idx where x: "x = (r, idx)" by (cases x)
  from Inr x have ri: "removeResourceFromIndex (heap s) k (resourcesById s) = Inr (r, idx)" by simp
  then show thesis
  proof (cases rule: removeResourceFromIndex_InrE)
    case missing
    with assms ri have "s' = s" by (simp add: removeResourceNow_def)
    with missing(1) show thesis by (rule that(1))
  next
    case (found resource)
    from found(1) have m: "map_of (resourcesById s) k = Some resource" by (simp add: propertyOf_Own)
    from ri found(2) have r: "removeResourceFromIndex (heap s) k (resourcesById s) = Inr (JObject resource, idx)"
      by simp
    from assms r obtain l where l: "topLevelResources s = Some l"
      by (cases "topLevelResources s") (auto simp: removeResourceNow_def)
    from assms r l obtain fnd s2 where
      t: "removeResourceFromTree resource TopLevel 0 (s\<lparr>resourcesById := idx\<rparr>) = Some (fnd, s2)"
      by (cases "removeResourceFromTree resource TopLevel 0 (s\<lparr>resourcesById := idx\<rparr>)")
        (auto simp: removeResourceNow_def)
    from assms r l t have "s' = emit (TriggerResource ''remove'' resource (topLevelResources s2)) s2"
      by (simp add: removeResourceNow_def)
    with r m l t show thesis by (rule that(2))
  qed
qed

lemma dataStep_removeResourceNow:
  assumes "removeResourceNow k s = Inr s'"
  shows "dataStep s s'"
  using assms
proof (cases rule: removeResourceNow_InrE)
  case missing
  then show ?thesis by simp
next
  case (removed resource idx l found s2)
  have a: "dataStep s (s\<lparr>resourcesById := idx\<rparr>)" by (rule quietStep_dataStep) simp
  have b: "dataStep (s\<lparr>resourcesById := idx\<rparr>) s2"
    using removeResourceFromTree_quietStep[OF removed(4)] quietStep_dataStep by simp
  have c: "dataStep s2 s'"
    unfolding removed(5) by (rule dataStep_emit) (simp add: isSourceResolution_def)
  show ?thesis by (rule dataStep_trans[OF a dataStep_trans[OF b c]])
qed

lemma dataStep_runCallback:
  assumes "runCallback cb s = Inr s'"
  shows "dataStep s s'"
proof (cases cb)
  case (UserCallback c)
  with assms have "s' = emit (CallbackCalled c (topLevelResources s)) s"
    by (simp add: runCallback_def)
  then show ?thesis using dataStep_emit[of "CallbackCalled c (topLevelResources s)" s]
    by (simp add: isSourceResolution_def)
next
  case (AddResourceClosure resourceInput c)
  with assms have "addResourceNow resourceInput c s = Inr s'" by (simp add: runCallback_def)
  then show ?thesis by (rule dataStep_addResourceNow)
next
  case (RemoveResourceClosure k)
  with assms have "removeResourceNow k s = Inr s'" by (simp add: runCallback_def)
  then show ?thesis by (rule dataStep_removeResourceNow)
qed

lemma dataStep_applyAll: "applyAll cbs s = Inr s' \<Longrightarrow> dataStep s s'"
proof (induction cbs arbitrary: s)
  case Nil
  then show ?case by simp
next
  case (Cons cb cbs)
  from Cons.prems obtain s1 where 1: "runCallback cb s = Inr s1" and 2: "applyAll cbs s1 = Inr s'"
    by (auto split: sum.splits)
  from dataStep_runCallback[OF 1] Cons.IH[OF 2] show ?case by (rule dataStep_trans)
qed

lemma grows_refl [simp]: "grows s s"
  by (simp add: grows_def)

lemma grows_trans:
  assumes "grows s t" and "grows t u"
  shows "grows s u"
proof -
  have ids: "\<forall>a. a < nextAddr s \<longrightarrow> res_id (heap u a) = res_id (heap s a)"
    using assms unfolding grows_def by (metis less_le_trans)
  from assms ids show ?thesis
    unfolding grows_def by (metis le_trans)
qed

lemma dataStep_grows: "dataStep s s' \<Longrightarrow> grows s s'"
  by (simp add: dataStep_def grows_def sameCoordinator_def)

lemma dataStep_resolutions: "dataStep s s' \<Longrightarrow> resolutions s' = resolutions s"
  by (auto simp: dataStep_def resolutions_def)

lemma grows_emit [simp]: "grows s (emit e s)"
  by (simp add: grows_def emit_def)

lemma resolutions_emit:
  "resolutions (emit e s) = (if isSourceResolution e then Suc (resolutions s) else resolutions s)"
  by (simp add: resolutions_def emit_def)

lemma fetchCallback_InrE:
  assumes "fetchCallback g d s = Inr s'"
  obtains (stale) "g \<noteq> fetchId s" "s' = s"
  | (current) s1 where "g = fetchId s" "setResources d s = Inr s1"
      "applyAll (callbackArrays s1 g)
         (s1\<lparr>isFetchingResolved := True, fetchingResourcesCallbacks := None\<rparr>) = Inr s'"
proof (cases "g = fetchId s")
  case False
  with assms have "s' = s" by (simp add: fetchCallback_def)
  with False show thesis by (rule stale)
next
  case True
  with assms obtain s1 where 1: "setResources d s = Inr s1"
    by (cases "setResources d s") (auto simp: fetchCallback_def)
  with assms True have "applyAll (callbackArrays s1 g)
         (s1\<lparr>isFetchingResolved := True, fetchingResourcesCallbacks := None\<rparr>) = Inr s'"
    by (simp add: fetchCallback_def)
  with True 1 show thesis by (rule current)
qed

lemma grows_flags [simp]:
  "grows s (s\<lparr>isFetchingResolved := b, fetchingResourcesCallbacks := c\<rparr>)"
  by (simp add: grows_def)

lemma resolutions_flags [simp]:
  "resolutions (s\<lparr>isFetchingResolved := b, fetchingResourcesCallbacks := c\<rparr>) = resolutions s"
  by (simp add: resolutions_def)

lemma fetchCallback_grows:
  assumes "fetchCallback g d s = Inr s'"
  shows "grows s s' \<and> resolutions s' = resolutions s"
  using assms
proof (cases rule: fetchCallback_InrE)
  case stale
  then show ?thesis by simp
next
  case (current s1)
  let ?s2 = "s1\<lparr>isFetchingResolved := True, fetchingResourcesCallbacks := None\<rparr>"
  have a: "grows s s1" "resolutions s1 = resolutions s"
    using dataStep_setResources[OF current(2)] dataStep_grows dataStep_resolutions by blast+
  have b: "grows ?s2 s'" "resolutions s' = resolutions ?s2"
    using dataStep_applyAll[OF current(3)] dataStep_grows dataStep_resolutions by blast+
  have "grows s s'" by (rule grows_trans[OF a(1) grows_trans[OF grows_flags b(1)]])
  with a b show ?thesis by simp
qed

lemma sendRequest_grows:
  "grows s (sendRequest src start endDate s) \<and>
   resolutions (sendRequest src start endDate s) = resolutions s"
  by (simp add: sendRequest_def Let_def grows_def emit_def resolutions_def isSourceResolution_def
      split: option.splits)

lemma fetchResourceInputs_grows:
  assumes "fetchResourceInputs g start endDate s = Inr s'"
  shows "grows s s' \<and> resolutions s' = Suc (resolutions s)"
proof -
  let ?s0 = "emit (SourceResolution start endDate) s"
  have s0: "grows s ?s0" "resolutions ?s0 = Suc (resolutions s)" "calendar ?s0 = calendar s"
    by (simp_all add: grows_def resolutions_def isSourceResolution_def emit_def)
  have main: "grows ?s0 s' \<and> resolutions s' = resolutions ?s0"
  proof (cases "optResources (calendar s)")
    case (SourceString u)
    with assms s0(3) show ?thesis
      using sendRequest_grows by (auto simp: fetchResourceInputs_def Let_def)
  next
    case (SourceArray inputs)
    with assms s0(3) have "fetchCallback g (DataArray inputs) ?s0 = Inr s'"
      by (simp add: fetchResourceInputs_def Let_def)
    then show ?thesis by (rule fetchCallback_grows)
  next
    case SourceFunction
    with assms s0(3) have "s' = emit (FunctionSourceCalled start endDate (optTimezone (calendar s)))
                 (emit PushLoading ?s0)"
      by (simp add: fetchResourceInputs_def Let_def)
    then show ?thesis
      by (simp add: grows_def emit_def resolutions_def isSourceResolution_def)
  next
    case (SourceObject src)
    with assms s0(3) show ?thesis
      using sendRequest_grows by (auto simp: fetchResourceInputs_def Let_def)
  next
    case SourceOther
    with assms s0(3) have "fetchCallback g (DataArray []) ?s0 = Inr s'"
      by (simp add: fetchResourceInputs_def Let_def)
    then show ?thesis by (rule fetchCallback_grows)
  qed
  from main have g: "grows ?s0 s'" and r: "resolutions s' = resolutions ?s0" by simp_all
  from grows_trans[OF s0(1) g] r s0(2) show ?thesis by simp
qed

lemma fetchResources_grows:
  assumes "fetchResources start endDate cb s = Inr s'"
  shows "grows s s' \<and> resolutions s' = Suc (resolutions s)"
proof -
  let ?s1 = "s\<lparr>fetchId := fetchId s + 1,
           isFetchingInitiated := True,
           isFetchingResolved := False,
           fetchingResourcesCallbacks := Some (fetchId s + 1),
           callbackArrays := (callbackArrays s)(fetchId s + 1 := [cb])\<rparr>"
  from assms have "fetchResourceInputs (fetchId s + 1) start endDate ?s1 = Inr s'"
    by (simp add: fetchResources_def Let_def)
  from fetchResourceInputs_grows[OF this]
  have a: "grows ?s1 s'" "resolutions s' = Suc (resolutions ?s1)" by simp_all
  have b: "grows s ?s1" "resolutions ?s1 = resolutions s"
    by (simp_all add: grows_def resolutions_def)
  from grows_trans[OF b(1) a(1)] a(2) b(2) show ?thesis by simp
qed

lemma whenFetchingResolved_grows:
  assumes "whenFetchingResolved cb s = Inr s'"
  shows "grows s s' \<and> resolutions s' = resolutions s"
proof (cases "isFetchingResolved s")
  case True
  with assms have "runCallback cb s = Inr s'" by (simp add: whenFetchingResolved_def)
  from dataStep_runCallback[OF this] show ?thesis
    using dataStep_grows dataStep_resolutions by blast
next
  case False
  with assms show ?thesis
    by (auto simp: whenFetchingResolved_def grows_def resolutions_def split: option.splits)
qed

lemma dataStep_coordinator: "dataStep s s' \<Longrightarrow> sameCoordinator s s'"
  by (simp add: dataStep_def)

lemma fetchCallback_coordinator:
  assumes "fetchCallback g d s = Inr s'"
  shows "isFetchingInitiated s' = isFetchingInitiated s \<and> fetchId s' = fetchId s \<and>
         callbackArrays s' = callbackArrays s"
  using assms
proof (cases rule: fetchCallback_InrE)
  case stale
  then show ?thesis by simp
next
  case (current s1)
  from dataStep_coordinator[OF dataStep_setResources[OF current(2)]]
    dataStep_coordinator[OF dataStep_applyAll[OF current(3)]]
  show ?thesis by (simp add: sameCoordinator_def)
qed

lemma sendRequest_coordinator: "sameCoordinator s (sendRequest src start endDate s)"
  by (simp add: sendRequest_def Let_def sameCoordinator_def emit_def split: option.splits)

lemma fetchResourceInputs_coordinator:
  assumes "fetchResourceInputs g start endDate s = Inr s'"
  shows "isFetchingInitiated s' = isFetchingInitiated s \<and> fetchId s' = fetchId s \<and>
         callbackArrays s' = callbackArrays s"
proof -
  let ?s0 = "emit (SourceResolution start endDate) s"
  have s0: "isFetchingInitiated ?s0 = isFetchingInitiated s" "fetchId ?s0 = fetchId s"
    "callbackArrays ?s0 = callbackArrays s" "calendar ?s0 = calendar s"
    by (simp_all add: emit_def)
  have "isFetchingInitiated s' = isFetchingInitiated ?s0 \<and> fetchId s' = fetchId ?s0 \<and>
         callbackArrays s' = callbackArrays ?s0"
  proof (cases "optResources (calendar s)")
    case (SourceString u)
    with assms s0(4) show ?thesis
      using sendRequest_coordinator by (auto simp: fetchResourceInputs_def Let_def sameCoordinator_def)
  next
    case (SourceArray inputs)
    with assms s0(4) have "fetchCallback g (DataArray inputs) ?s0 = Inr s'"
      by (simp add: fetchResourceInputs_def Let_def)
    then show ?thesis by (rule fetchCallback_coordinator)
  next
    case SourceFunction
    with assms s0(4) have "s' = emit (FunctionSourceCalled start endDate (optTimezone (calendar s)))
                 (emit PushLoading ?s0)"
      by (simp add: fetchResourceInputs_def Let_def)
    then show ?thesis by (simp add: emit_def)
  next
    case (SourceObject src)
    with assms s0(4) show ?thesis
      using sendRequest_coordinator by (auto simp: fetchResourceInputs_def Let_def sameCoordinator_def)
  next
    case SourceOther
    with assms s0(4) have "fetchCallback g (DataArray []) ?s0 = Inr s'"
      by (simp add: fetchResourceInputs_def Let_def)
    then show ?thesis by (rule fetchCallback_coordinator)
  qed
  with s0 show ?thesis by simp
qed

lemma fetchResources_coordinator:
  assumes "fetchResources start endDate cb s = Inr s'"
  shows "isFetchingInitiated s' \<and> fetchId s' = fetchId s + 1"
proof -
  let ?s1 = "s\<lparr>fetchId := fetchId s + 1,
           isFetchingInitiated := True,
           isFetchingResolved := False,
           fetchingResourcesCallbacks := Some (fetchId s + 1),
           callbackArrays := (callbackArrays s)(fetchId s + 1 := [cb])\<rparr>"
  from assms have "fetchResourceInputs (fetchId s + 1) start endDate ?s1 = Inr s'"
    by (simp add: fetchResources_def Let_def)
  from fetchResourceInputs_coordinator[OF this] show ?thesis by simp
qed

lemma allocate_keeps:
  "allocate i p par s = (a, s') \<Longrightarrow>
     topLevelResources s' = topLevelResources s \<and> resourcesById s' = resourcesById s"
  by (auto simp: allocate_def Let_def split: prod.splits)

lemma build_keeps:
  "buildResource r s = (a, s') \<Longrightarrow>
     topLevelResources s' = topLevelResources s \<and> resourcesById s' = resourcesById s"
  "buildChildren rs p s = (as, s') \<Longrightarrow>
     topLevelResources s' = topLevelResources s \<and> resourcesById s' = resourcesById s"
proof (induction r s and rs p s arbitrary: a s' and as s' rule: buildResource_buildChildren.induct)
  case (1 i p par cs s)
  obtain r s1 where al: "allocate i p par s = (r, s1)" by (cases "allocate i p par s")
  obtain kids s2 where bc: "buildChildren cs r s1 = (kids, s2)" by (cases "buildChildren cs r s1")
  from 1(2) al bc have s': "s' = setChildren r kids s2" by auto
  from allocate_keeps[OF al] 1(1)[OF al[symmetric] bc] show ?case
    unfolding s' by (simp add: setChildren_def)
next
  case (2 resource s)
  then show ?case by simp
next
  case (3 childInput rest resource s)
  obtain c s1 where br: "buildResource childInput s = (c, s1)" by (cases "buildResource childInput s")
  obtain others s2 where bc: "buildChildren rest resource (setParent c (ParentResource resource) s1) = (others, s2)"
    by (cases "buildChildren rest resource (setParent c (ParentResource resource) s1)")
  from 3(3) br bc have s': "s' = s2" by auto
  from 3(1)[OF br] 3(2)[OF br[symmetric] bc] show ?case
    unfolding s' by (simp add: setParent_def)
qed

lemma buildResources_keeps:
  "buildResources rs s = (as, s') \<Longrightarrow>
     topLevelResources s' = topLevelResources s \<and> resourcesById s' = resourcesById s"
proof (induction rs arbitrary: s as s')
  case Nil
  then show ?case by simp
next
  case (Cons r rs)
  obtain a s1 where br: "buildResource r s = (a, s1)" by (cases "buildResource r s")
  obtain others s2 where bs: "buildResources rs s1 = (others, s2)" by (cases "buildResources rs s1")
  from Cons.prems br bs have "s' = s2" by auto
  with build_keeps(1)[OF br] Cons.IH[OF bs] show ?case by simp
qed

section \<open>The state in which an exception is thrown\<close>

lemma addResourceToTree_thrown:
  "addResourceToTree a s = Inl (Throws e s') \<Longrightarrow> quietStep s s'"
  by (auto simp: addResourceToTree_def Let_def split: if_splits property.splits option.splits)

lemma treeResources_thrown: "treeResources rs s = Inl (Throws e s') \<Longrightarrow> quietStep s s'"
proof (induction rs arbitrary: s)
  case Nil
  then show ?case by simp
next
  case (Cons r rs)
  show ?case
  proof (cases "addResourceToTree r s")
    case (Inl x)
    with Cons.prems have "addResourceToTree r s = Inl (Throws e s')" by simp
    then show ?thesis by (rule addResourceToTree_thrown)
  next
    case (Inr x)
    obtain b s1 where x: "x = (b, s1)" by (cases x)
    with Inr Cons.prems have 2: "treeResources rs s1 = Inl (Throws e s')" by simp
    from Inr x have 1: "addResourceToTree r s = Inr (b, s1)" by simp
    from quietStep_addResourceToTree[OF 1] Cons.IH[OF 2] show ?thesis by (rule quietStep_trans)
  qed
qed

lemma setResources_thrown:
  assumes "setResources d s = Inl (Throws e s')"
  shows "quietStep s s'"
proof (cases d)
  case (DataArray inputs)
  obtain resources s1 where b: "buildResources inputs (initializeCache s) = (resources, s1)"
    by (cases "buildResources inputs (initializeCache s)")
  from assms DataArray b obtain valid s2 where i: "indexResources resources s1 = Some (valid, s2)"
    by (cases "indexResources resources s1") (auto simp: setResources_def Let_def)
  from assms DataArray b i have t: "treeResources valid s2 = Inl (Throws e s')"
    by (cases "treeResources valid s2") (auto simp: setResources_def Let_def)
  have 1: "quietStep s (initializeCache s)" by simp
  have 2: "quietStep (initializeCache s) s1" using b by (rule quietStep_buildResources)
  have 3: "quietStep s1 s2" using i by (rule quietStep_indexResources)
  have 4: "quietStep s2 s'" using t by (rule treeResources_thrown)
  show ?thesis by (rule quietStep_trans[OF 1 quietStep_trans[OF 2 quietStep_trans[OF 3 4]]])
next
  case DataOther
  with assms have "s' = initializeCache s" by (simp add: setResources_def Let_def)
  then show ?thesis by simp
next
  case DataFalsy
  with assms have "s' = initializeCache s" by (simp add: setResources_def Let_def)
  then show ?thesis by simp
qed

lemma addResourceNow_thrown:
  assumes "addResourceNow resourceInput cb s = Inl (Throws e s')"
  shows "quietStep s s'"
proof -
  obtain resource s1 where b: "buildResource resourceInput s = (resource, s1)"
    by (cases "buildResource resourceInput s")
  from assms b obtain indexed s2 where i: "addResourceToIndex resource s1 = Some (indexed, s2)"
    by (cases "addResourceToIndex resource s1") (auto simp: addResourceNow_def)
  from assms b i have t: "addResourceToTree resource s2 = Inl (Throws e s')"
    by (cases indexed; cases "addResourceToTree resource s2")
      (auto simp: addResourceNow_def Let_def split: option.splits)
  show ?thesis
    by (rule quietStep_trans[OF quietStep_build(1)[OF b]
          quietStep_trans[OF quietStep_addResourceToIndex[OF i] addResourceToTree_thrown[OF t]]])
qed

lemma removeResourceNow_thrown:
  assumes "removeResourceNow k s = Inl (Throws e s')"
  shows "\<exists>idx. s' = s\<lparr>resourcesById := idx\<rparr>"
proof (cases "removeResourceFromIndex (heap s) k (resourcesById s)")
  case (Inl idx)
  with assms show ?thesis by (auto simp: removeResourceNow_def)
next
  case (Inr x)
  obtain r idx where x: "x = (r, idx)" by (cases x)
  show ?thesis
  proof (cases r)
    case (JObject resource)
    with assms Inr x show ?thesis
      by (auto simp: removeResourceNow_def Let_def split: option.splits)
  next
    case JNull
    with assms Inr x show ?thesis by (simp add: removeResourceNow_def)
  next
    case JFalse
    with assms Inr x show ?thesis by (simp add: removeResourceNow_def)
  qed
qed

lemma runCallback_thrown:
  assumes "runCallback cb s = Inl (Throws e s')"
  shows "quietStep s s'"
proof (cases cb)
  case (UserCallback c)
  with assms show ?thesis by (simp add: runCallback_def)
next
  case (AddResourceClosure resourceInput c)
  with assms have "addResourceNow resourceInput c s = Inl (Throws e s')" by (simp add: runCallback_def)
  then show ?thesis by (rule addResourceNow_thrown)
next
  case (RemoveResourceClosure k)
  with assms have "removeResourceNow k s = Inl (Throws e s')" by (simp add: runCallback_def)
  from removeResourceNow_thrown[OF this] show ?thesis by auto
qed

lemma applyAll_thrown: "applyAll cbs s = Inl (Throws e s') \<Longrightarrow> dataStep s s'"
proof (induction cbs arbitrary: s)
  case Nil
  then show ?case by simp
next
  case (Cons cb cbs)
  show ?case
  proof (cases "runCallback cb s")
    case (Inl x)
    with Cons.prems have "runCallback cb s = Inl (Throws e s')" by simp
    from runCallback_thrown[OF this] show ?thesis by (rule quietStep_dataStep)
  next
    case (Inr s1)
    with Cons.prems have 2: "applyAll cbs s1 = Inl (Throws e s')" by simp
    from dataStep_runCallback[OF Inr] Cons.IH[OF 2] show ?thesis by (rule dataStep_trans)
  qed
qed

lemma whenFetchingResolved_thrown:
  assumes "whenFetchingResolved cb s = Inl (Throws e s')"
  shows "dataStep s s'"
proof (cases "isFetchingResolved s")
  case True
  with assms have "runCallback cb s = Inl (Throws e s')" by (simp add: whenFetchingResolved_def)
  from runCallback_thrown[OF this] show ?thesis by (rule quietStep_dataStep)
next
  case False
  with assms have "s' = s" by (auto simp: whenFetchingResolved_def split: option.splits)
  then show ?thesis by simp
qed

lemma fetchCallback_thrown:
  assumes "fetchCallback g d s = Inl (Throws e s')"
  shows "grows s s' \<and> resolutions s' = resolutions s"
proof (cases "g = fetchId s")
  case False
  with assms show ?thesis by (simp add: fetchCallback_def)
next
  case True
  show ?thesis
  proof (cases "setResources d s")
    case (Inl x)
    with assms True have "setResources d s = Inl (Throws e s')" by (simp add: fetchCallback_def)
    from quietStep_dataStep[OF setResources_thrown[OF this]] show ?thesis
      using dataStep_grows dataStep_resolutions by blast
  next
    case (Inr s1)
    let ?s2 = "s1\<lparr>isFetchingResolved := True, fetchingResourcesCallbacks := None\<rparr>"
    from assms True Inr have a: "applyAll (callbackArrays s1 g) ?s2 = Inl (Throws e s')"
      by (simp add: fetchCallback_def)
    have 1: "grows s s1" "resolutions s1 = resolutions s"
      using dataStep_setResources[OF Inr] dataStep_grows dataStep_resolutions by blast+
    have 2: "grows ?s2 s'" "resolutions s' = resolutions ?s2"
      using applyAll_thrown[OF a] dataStep_grows dataStep_resolutions by blast+
    have "grows s s'" by (rule grows_trans[OF 1(1) grows_trans[OF grows_flags 2(1)]])
    with 1 2 show ?thesis by simp
  qed
qed

lemma fetchResourceInputs_thrown:
  assumes "fetchResourceInputs g start endDate s = Inl (Throws e s')"
  shows "grows s s'"
proof -
  let ?s0 = "emit (SourceResolution start endDate) s"
  have c: "calendar ?s0 = calendar s" by (simp add: emit_def)
  have "\<exists>d. fetchCallback g d ?s0 = Inl (Throws e s')"
  proof (cases "optResources (calendar s)")
    case (SourceArray inputs)
    with assms c show ?thesis by (auto simp: fetchResourceInputs_def Let_def)
  next
    case SourceOther
    with assms c show ?thesis by (auto simp: fetchResourceInputs_def Let_def)
  next
    case (SourceString u)
    with assms c show ?thesis by (simp add: fetchResourceInputs_def Let_def)
  next
    case SourceFunction
    with assms c show ?thesis by (simp add: fetchResourceInputs_def Let_def)
  next
    case (SourceObject src)
    with assms c show ?thesis by (simp add: fetchResourceInputs_def Let_def)
  qed
  then obtain d where "fetchCallback g d ?s0 = Inl (Throws e s')" ..
  from fetchCallback_thrown[OF this] have "grows ?s0 s'" by simp
  from grows_trans[OF grows_emit this] show ?thesis .
qed

lemma fetchResources_thrown:
  assumes "fetchResources start endDate cb s = Inl (Throws e s')"
  shows "grows s s'"
proof -
  let ?s1 = "s\<lparr>fetchId := fetchId s + 1,
           isFetchingInitiated := True,
           isFetchingResolved := False,
           fetchingResourcesCallbacks := Some (fetchId s + 1),
           callbackArrays := (callbackArrays s)(fetchId s + 1 := [cb])\<rparr>"
  from assms have "fetchResourceInputs (fetchId s + 1) start endDate ?s1 = Inl (Throws e s')"
    by (simp add: fetchResources_def Let_def)
  from fetchResourceInputs_thrown[OF this] have a: "grows ?s1 s'" .
  have b: "grows s ?s1" by (simp add: grows_def)
  from grows_trans[OF b a] show ?thesis .
qed

lemma requestEnd_thrown:
  assumes "requestEnd parse g src err res s = Inl (Throws e s')"
  shows "grows s s'"
proof -
  from assms have "s' = emit PopLoading s \<or>
      (\<exists>d t. fetchCallback g d t = Inl (Throws e s') \<and>
         (t = emit PopLoading s \<or> t = emit (ErrorHookCalled err res) (emit PopLoading s) \<or>
          (\<exists>x. t = emit (SuccessHookCalled x res) (emit PopLoading s))))"
    by (auto simp: requestEnd_def Let_def split: sum.splits if_splits option.splits)
  then show ?thesis
  proof
    assume "s' = emit PopLoading s"
    then show ?thesis by simp
  next
    assume "\<exists>d t. fetchCallback g d t = Inl (Throws e s') \<and>
         (t = emit PopLoading s \<or> t = emit (ErrorHookCalled err res) (emit PopLoading s) \<or>
          (\<exists>x. t = emit (SuccessHookCalled x res) (emit PopLoading s)))"
    then obtain d t where t: "fetchCallback g d t = Inl (Throws e s')"
      and g: "t = emit PopLoading s \<or> t = emit (ErrorHookCalled err res) (emit PopLoading s) \<or>
          (\<exists>x. t = emit (SuccessHookCalled x res) (emit PopLoading s))" by blast
    from g have "grows s t" by (auto simp: grows_def emit_def)
    with fetchCallback_thrown[OF t] show ?thesis using grows_trans by blast
  qed
qed

lemma getResources_thrown:
  assumes "getResources start endDate cb s = Inl (Throws e s')"
  shows "grows s s'"
proof -
  from assms have "s' = s \<or> fetchResources start endDate cb s = Inl (Throws e s') \<or>
      whenFetchingResolved cb s = Inl (Throws e s')"
    by (auto simp: getResources_def split: sum.splits if_splits)
  then show ?thesis
    using fetchResources_thrown dataStep_grows[OF whenFetchingResolved_thrown] by auto
qed

section \<open>Generated ids\<close>

lemma digit_char_inj: "a < 10 \<Longrightarrow> b < 10 \<Longrightarrow> digit_char a = digit_char b \<Longrightarrow> a = b"
proof -
  assume a: "a < 10" and b: "b < 10" and e: "digit_char a = digit_char b"
  from e have "of_char (char_of (48 + a) :: char) = (of_char (char_of (48 + b) :: char) :: nat)"
    by (simp add: digit_char_def)
  with a b show "a = b" by (simp add: of_char_of)
qed

lemma string_of_nat_nonempty: "string_of_nat n \<noteq> []"
  by (subst string_of_nat.simps) simp

lemma string_of_nat_last: "last (string_of_nat n) = digit_char (n mod 10)"
  by (subst string_of_nat.simps) simp

lemma string_of_nat_butlast:
  "butlast (string_of_nat n) = (if n < 10 then [] else string_of_nat (n div 10))"
  by (subst string_of_nat.simps) simp

lemma string_of_nat_inj: "string_of_nat n = string_of_nat m \<Longrightarrow> n = m"
proof (induction n arbitrary: m rule: string_of_nat.induct)
  case (1 n)
  from 1(2) have l: "digit_char (n mod 10) = digit_char (m mod 10)"
    using string_of_nat_last by metis
  then have md: "n mod 10 = m mod 10" by (rule digit_char_inj[rotated 2]) simp_all
  from 1(2) have b: "butlast (string_of_nat n) = butlast (string_of_nat m)" by simp
  show ?case
  proof (cases "n < 10")
    case True
    with b have "m < 10" using string_of_nat_nonempty[of "m div 10"]
      by (auto simp: string_of_nat_butlast split: if_splits)
    with True md show ?thesis by simp
  next
    case False
    with b have m: "\<not> m < 10" using string_of_nat_nonempty[of "n div 10"]
      by (auto simp: string_of_nat_butlast split: if_splits)
    with False b have "string_of_nat (n div 10) = string_of_nat (m div 10)"
      by (simp add: string_of_nat_butlast)
    from 1(1)[OF False this] have "n div 10 = m div 10" .
    with md show ?thesis by (metis div_mult_mod_eq)
  qed
qed

lemma quietStep_grows: "quietStep s s' \<Longrightarrow> grows s s'"
  by (rule dataStep_grows[OF quietStep_dataStep])

lemma requestEnd_grows:
  assumes "requestEnd parse g src err res s = Inr s'"
  shows "grows s s'"
proof -
  from assms obtain d t where
    t: "fetchCallback g d t = Inr s'" and
    g: "t = emit PopLoading s \<or> t = emit (ErrorHookCalled err res) (emit PopLoading s) \<or>
        (\<exists>x. t = emit (SuccessHookCalled x res) (emit PopLoading s))"
    by (auto simp: requestEnd_def Let_def split: sum.splits if_splits option.splits)
  from g have "grows s t" by (auto simp: grows_def emit_def)
  with fetchCallback_grows[OF t] show ?thesis using grows_trans by blast
qed

lemma getResources_grows:
  assumes "getResources start endDate cb s = Inr s'"
  shows "grows s s'"
proof -
  from assms have "fetchResources start endDate cb s = Inr s' \<or> whenFetchingResolved cb s = Inr s'"
    by (auto simp: getResources_def split: sum.splits if_splits)
  then show ?thesis using fetchResources_grows whenFetchingResolved_grows by blast
qed

lemma perform_grows:
  assumes "perform parse op s = Inr s'"
  shows "grows s s'"
proof (cases op)
  case (GetResources start endDate cb)
  with assms have "getResources start endDate cb s = Inr s'" by simp
  then show ?thesis by (rule getResources_grows)
next
  case (FetchResources start endDate cb)
  with assms have "fetchResources start endDate cb s = Inr s'" by simp
  from fetchResources_grows[OF this] show ?thesis by simp
next
  case (WhenFetchingResolved cb)
  with assms have "whenFetchingResolved cb s = Inr s'" by simp
  from whenFetchingResolved_grows[OF this] show ?thesis by simp
next
  case (FunctionSourceCompletes g d)
  with assms have "fetchCallback g d (emit PopLoading s) = Inr s'"
    by (simp add: functionSourceCompletes_def)
  from fetchCallback_grows[OF this] have "grows (emit PopLoading s) s'" by simp
  from grows_trans[OF grows_emit this] show ?thesis .
next
  case (RequestEnd g src err res)
  with assms have "requestEnd parse g src err res s = Inr s'" by simp
  then show ?thesis by (rule requestEnd_grows)
next
  case InitializeCache
  with assms have "s' = initializeCache s" by simp
  then show ?thesis by (simp add: grows_def initializeCache_def)
next
  case (SetResources d)
  with assms have "setResources d s = Inr s'" by simp
  from dataStep_grows[OF dataStep_setResources[OF this]] show ?thesis .
next
  case ResetCurrentResources
  with assms have "s' = resetCurrentResources s" by simp
  then show ?thesis by (simp add: grows_def resetCurrentResources_def emit_def)
next
  case Clear
  with assms have "s' = clear s" by simp
  then show ?thesis by (simp add: grows_def clear_def)
next
  case (AddResource resourceInput cb)
  show ?thesis
  proof (cases "isFetchingInitiated s")
    case True
    with AddResource assms have "whenFetchingResolved (AddResourceClosure resourceInput cb) s = Inr s'"
      by (simp add: addResource_def)
    from whenFetchingResolved_grows[OF this] show ?thesis by simp
  next
    case False
    with AddResource assms have "s' = s" by (simp add: addResource_def)
    then show ?thesis by simp
  qed
next
  case (AddResourceToIndex a)
  show ?thesis
  proof (cases "addResourceToIndex a s")
    case None
    with AddResourceToIndex assms show ?thesis by simp
  next
    case (Some r)
    with AddResourceToIndex assms have "s' = snd r" by simp
    with Some have "addResourceToIndex a s = Some (fst r, s')" by simp
    from quietStep_grows[OF quietStep_addResourceToIndex[OF this]] show ?thesis .
  qed
next
  case (AddResourceToTree a)
  show ?thesis
  proof (cases "addResourceToTree a s")
    case (Inl e)
    with AddResourceToTree assms show ?thesis by simp
  next
    case (Inr r)
    with AddResourceToTree assms have "s' = snd r" by simp
    with Inr have "addResourceToTree a s = Inr (fst r, s')" by simp
    from quietStep_grows[OF quietStep_addResourceToTree[OF this]] show ?thesis .
  qed
next
  case (RemoveResource arg)
  show ?thesis
  proof (cases "isFetchingInitiated s")
    case True
    with RemoveResource assms
    have "whenFetchingResolved (RemoveResourceClosure (resourceIdOf arg s)) s = Inr s'"
      by (simp add: removeResource_def Let_def)
    from whenFetchingResolved_grows[OF this] show ?thesis by simp
  next
    case False
    with RemoveResource assms have "s' = s" by (simp add: removeResource_def Let_def)
    then show ?thesis by simp
  qed
next
  case (RemoveResourceFromIndex k)
  with assms obtain idx where "s' = s\<lparr>resourcesById := idx\<rparr>"
    by (auto split: sum.splits)
  then show ?thesis by (simp add: grows_def)
next
  case (RemoveResourceFromTree a)
  show ?thesis
  proof (cases "removeResourceFromTree a TopLevel 0 s")
    case None
    with RemoveResourceFromTree assms show ?thesis by (simp split: option.splits)
  next
    case (Some r)
    with RemoveResourceFromTree assms have "s' = snd r" by (simp split: option.splits)
    with removeResourceFromTree_quietStep[OF Some] have "quietStep s s'" by simp
    then show ?thesis by (rule quietStep_grows)
  qed
next
  case (BuildResource resourceInput)
  with assms have "s' = snd (buildResource resourceInput s)" by simp
  then have "buildResource resourceInput s = (fst (buildResource resourceInput s), s')"
    by simp
  from quietStep_grows[OF quietStep_build(1)[OF this]] show ?thesis .
next
  case (TriggerEvent e)
  with assms have "s' = emit e s" by simp
  then show ?thesis by simp
qed

lemma performAll_grows: "performAll parse ops s = Inr s' \<Longrightarrow> grows s s'"
proof (induction ops arbitrary: s)
  case Nil
  then show ?case by simp
next
  case (Cons op ops)
  from Cons.prems obtain s1 where 1: "perform parse op s = Inr s1" and 2: "performAll parse ops s1 = Inr s'"
    by (auto simp: andThen_def split: sum.splits)
  from perform_grows[OF 1] Cons.IH[OF 2] show ?case by (rule grows_trans)
qed

lemma guidAfter_append: "guidAfter g (xs @ ys) = guidAfter (guidAfter g xs) ys"
  by (induction xs arbitrary: g) simp_all

lemma assignIds_append:
  "assignIds g (xs @ ys) = assignIds g xs @ assignIds (guidAfter g xs) ys"
  by (induction xs arbitrary: g) simp_all

lemma length_assignIds [simp]: "length (assignIds g xs) = length xs"
  by (induction xs arbitrary: g) simp_all

lemma guidAfter_le: "g \<le> guidAfter g xs"
proof (induction xs arbitrary: g)
  case Nil
  show ?case by simp
next
  case (Cons i xs)
  have "g \<le> snd (assignId i g)" by (cases i) (simp_all add: assignId_def increment_def)
  with Cons[of "snd (assignId i g)"] show ?case by simp
qed

lemma assignIds_nth:
  "n < length xs \<Longrightarrow> assignIds g xs ! n = fst (assignId (xs ! n) (guidAfter g (take n xs)))"
proof (induction xs arbitrary: g n)
  case Nil
  then show ?case by simp
next
  case (Cons i xs)
  then show ?case by (cases n) simp_all
qed

lemma guidAfter_take_less:
  assumes "n < m" and "m \<le> length xs" and "xs ! n = None"
    and "guidAfter g (take n xs) < maxCounter"
  shows "guidAfter g (take n xs) < guidAfter g (take m xs)"
proof -
  from assms have "take m xs = take n xs @ (xs ! n) # take (m - Suc n) (drop (Suc n) xs)"
    by (metis Suc_leI le_trans less_le_trans not_less take_Suc_conv_app_nth take_add
        le_add_diff_inverse append.assoc append_Cons append_Nil less_imp_le_nat)
  then have "guidAfter g (take m xs) =
      guidAfter (Suc (guidAfter g (take n xs))) (take (m - Suc n) (drop (Suc n) xs))"
    using assms(3,4) by (simp add: guidAfter_append assignId_def increment_def)
  with guidAfter_le[of "Suc (guidAfter g (take n xs))" "take (m - Suc n) (drop (Suc n) xs)"]
  show ?thesis by simp
qed

lemma generated_ids_differ: "n \<noteq> m \<Longrightarrow> ''_fc'' @ string_of_nat n \<noteq> ''_fc'' @ string_of_nat m"
  using string_of_nat_inj by auto

lemma assignIds_generated_distinct:
  assumes "n < m" and "m < length xs" and "xs ! n = None" and "xs ! m = None"
    and "guidAfter g (take n xs) < maxCounter"
  shows "assignIds g xs ! n \<noteq> assignIds g xs ! m"
proof -
  from assms have "guidAfter g (take n xs) < guidAfter g (take m xs)"
    by (intro guidAfter_take_less) simp_all
  then have "''_fc'' @ string_of_nat (guidAfter g (take n xs)) \<noteq>
             ''_fc'' @ string_of_nat (guidAfter g (take m xs))"
    by (intro generated_ids_differ) simp
  with assms show ?thesis by (simp add: assignIds_nth assignId_def)
qed

lemma allocate_facts:
  assumes "allocate i p par s = (a, s1)"
  shows "a = nextAddr s" "nextAddr s1 = Suc (nextAddr s)"
    "res_id (heap s1 a) = fst (assignId i (resourceGuid s))"
    "resourceGuid s1 = snd (assignId i (resourceGuid s))"
  using assms by (auto simp: allocate_def Let_def split: prod.splits)

lemma quietStep_ids: "quietStep s s' \<Longrightarrow> b < nextAddr s \<Longrightarrow> res_id (heap s' b) = res_id (heap s b)"
  by (simp add: quietStep_def)

lemma builtIds_split:
  assumes "nextAddr s \<le> nextAddr t" and "nextAddr t \<le> nextAddr u"
    and "\<And>b. b < nextAddr t \<Longrightarrow> res_id (heap u b) = res_id (heap t b)"
  shows "builtIds s u = builtIds s t @ builtIds t u"
proof -
  have "[nextAddr s ..< nextAddr u] = [nextAddr s ..< nextAddr t] @ [nextAddr t ..< nextAddr u]"
    using assms(1,2) by (metis le_Suc_ex upt_add_eq_append)
  moreover have "map (\<lambda>b. res_id (heap u b)) [nextAddr s ..< nextAddr t] =
                 map (\<lambda>b. res_id (heap t b)) [nextAddr s ..< nextAddr t]"
    using assms(3) by simp
  ultimately show ?thesis by (simp add: builtIds_def)
qed

lemma builtIds_setChildren [simp]: "builtIds s (setChildren a cs t) = builtIds s t"
  by (simp add: builtIds_def setChildren_def)

lemma builtIds_from_setParent [simp]: "builtIds (setParent a p s) t = builtIds s t"
  by (simp add: builtIds_def setParent_def)

lemma setChildren_counters [simp]:
  "nextAddr (setChildren a cs t) = nextAddr t" "resourceGuid (setChildren a cs t) = resourceGuid t"
  by (simp_all add: setChildren_def)

lemma build_ids:
  "buildResource r s = (a, s') \<Longrightarrow>
     a = nextAddr s \<and> nextAddr s' = nextAddr s + length (flat r) \<and>
     builtIds s s' = assignIds (resourceGuid s) (map rawId (flat r)) \<and>
     resourceGuid s' = guidAfter (resourceGuid s) (map rawId (flat r))"
  "buildChildren cs p s = (kids, s') \<Longrightarrow>
     nextAddr s' = nextAddr s + length (flats cs) \<and>
     builtIds s s' = assignIds (resourceGuid s) (map rawId (flats cs)) \<and>
     resourceGuid s' = guidAfter (resourceGuid s) (map rawId (flats cs))"
proof (induction r s and cs p s arbitrary: a s' and kids s' rule: buildResource_buildChildren.induct)
  case (1 i p par cs s)
  obtain r s1 where al: "allocate i p par s = (r, s1)" by (cases "allocate i p par s")
  obtain kids s2 where bc: "buildChildren cs r s1 = (kids, s2)" by (cases "buildChildren cs r s1")
  from 1(2) al bc have s': "s' = setChildren r kids s2" and a: "a = r" by auto
  note af = allocate_facts[OF al]
  from 1(1)[OF al[symmetric] bc]
  have ih: "nextAddr s2 = nextAddr s1 + length (flats cs)"
    "builtIds s1 s2 = assignIds (resourceGuid s1) (map rawId (flats cs))"
    "resourceGuid s2 = guidAfter (resourceGuid s1) (map rawId (flats cs))" by simp_all
  have q: "quietStep s1 s2" using bc by (rule quietStep_build(2))
  have first: "builtIds s s1 = [fst (assignId i (resourceGuid s))]"
    using af by (simp add: builtIds_def)
  have "builtIds s s2 = builtIds s s1 @ builtIds s1 s2"
  proof (rule builtIds_split)
    show "nextAddr s \<le> nextAddr s1" using af by simp
    show "nextAddr s1 \<le> nextAddr s2" using ih by simp
    show "\<And>b. b < nextAddr s1 \<Longrightarrow> res_id (heap s2 b) = res_id (heap s1 b)"
      using q by (rule quietStep_ids)
  qed
  with first ih af have "builtIds s s2 = assignIds (resourceGuid s) (map rawId (flat (RawInput i p par cs)))"
    by simp
  moreover have "nextAddr s2 = nextAddr s + length (flat (RawInput i p par cs))"
    using ih af by simp
  moreover have "resourceGuid s2 = guidAfter (resourceGuid s) (map rawId (flat (RawInput i p par cs)))"
    using ih af by simp
  ultimately show ?case using a af(1) unfolding s' by simp
next
  case (2 resource s)
  then show ?case by (simp add: builtIds_def)
next
  case (3 childInput rest resource s)
  obtain c s1 where br: "buildResource childInput s = (c, s1)" by (cases "buildResource childInput s")
  let ?s1 = "setParent c (ParentResource resource) s1"
  obtain others s2 where bc: "buildChildren rest resource ?s1 = (others, s2)"
    by (cases "buildChildren rest resource ?s1")
  from 3(3) br bc have s': "s' = s2" by auto
  from 3(1)[OF br]
  have ih1: "nextAddr s1 = nextAddr s + length (flat childInput)"
    "builtIds s s1 = assignIds (resourceGuid s) (map rawId (flat childInput))"
    "resourceGuid s1 = guidAfter (resourceGuid s) (map rawId (flat childInput))" by simp_all
  have p1: "nextAddr ?s1 = nextAddr s1" "resourceGuid ?s1 = resourceGuid s1"
    "\<And>b. res_id (heap ?s1 b) = res_id (heap s1 b)"
    by (simp_all add: setParent_def)
  from 3(2)[OF br[symmetric] bc] p1
  have ih2: "nextAddr s2 = nextAddr s1 + length (flats rest)"
    "builtIds s1 s2 = assignIds (resourceGuid s1) (map rawId (flats rest))"
    "resourceGuid s2 = guidAfter (resourceGuid s1) (map rawId (flats rest))" by simp_all
  have q: "quietStep ?s1 s2" using bc by (rule quietStep_build(2))
  have "builtIds s s2 = builtIds s s1 @ builtIds s1 s2"
  proof (rule builtIds_split)
    show "nextAddr s \<le> nextAddr s1" using ih1 by simp
    show "nextAddr s1 \<le> nextAddr s2" using ih2 by simp
    show "\<And>b. b < nextAddr s1 \<Longrightarrow> res_id (heap s2 b) = res_id (heap s1 b)"
      using quietStep_ids[OF q] p1 by simp
  qed
  with ih1 ih2 show ?case unfolding s'
    by (simp add: assignIds_append guidAfter_append)
qed

lemma buildResources_ids:
  "buildResources inputs s = (as, s') \<Longrightarrow>
     nextAddr s' = nextAddr s + length (flats inputs) \<and>
     builtIds s s' = assignIds (resourceGuid s) (map rawId (flats inputs)) \<and>
     resourceGuid s' = guidAfter (resourceGuid s) (map rawId (flats inputs))"
proof (induction inputs arbitrary: s as s')
  case Nil
  then show ?case by (simp add: builtIds_def)
next
  case (Cons r rest)
  obtain a s1 where br: "buildResource r s = (a, s1)" by (cases "buildResource r s")
  obtain others s2 where bs: "buildResources rest s1 = (others, s2)" by (cases "buildResources rest s1")
  from Cons.prems br bs have s': "s' = s2" by auto
  from build_ids(1)[OF br]
  have ih1: "nextAddr s1 = nextAddr s + length (flat r)"
    "builtIds s s1 = assignIds (resourceGuid s) (map rawId (flat r))"
    "resourceGuid s1 = guidAfter (resourceGuid s) (map rawId (flat r))" by simp_all
  from Cons.IH[OF bs]
  have ih2: "nextAddr s2 = nextAddr s1 + length (flats rest)"
    "builtIds s1 s2 = assignIds (resourceGuid s1) (map rawId (flats rest))"
    "resourceGuid s2 = guidAfter (resourceGuid s1) (map rawId (flats rest))" by simp_all
  have q: "quietStep s1 s2" using bs by (rule quietStep_buildResources)
  have "builtIds s s2 = builtIds s s1 @ builtIds s1 s2"
  proof (rule builtIds_split)
    show "nextAddr s \<le> nextAddr s1" using ih1 by simp
    show "nextAddr s1 \<le> nextAddr s2" using ih2 by simp
    show "\<And>b. b < nextAddr s1 \<Longrightarrow> res_id (heap s2 b) = res_id (heap s1 b)"
      using q by (rule quietStep_ids)
  qed
  with ih1 ih2 show ?case unfolding s'
    by (simp add: assignIds_append guidAfter_append)
qed

lemma buildResource_generated:
  assumes "rawId r = None" and "buildResource r s = (a, s')"
  shows "a = nextAddr s" "a < nextAddr s'"
    "res_id (heap s' a) = ''_fc'' @ string_of_nat (resourceGuid s)"
    "increment (resourceGuid s) \<le> resourceGuid s'"
proof -
  obtain i p par cs where r: "r = RawInput i p par cs" by (cases r)
  with assms(1) have i: "i = None" by simp
  from build_ids(1)[OF assms(2)] r i
  have b: "a = nextAddr s" "nextAddr s' = Suc (nextAddr s + length (flats cs))"
    "builtIds s s' = (''_fc'' @ string_of_nat (resourceGuid s)) #
        assignIds (increment (resourceGuid s)) (map rawId (flats cs))"
    "resourceGuid s' = guidAfter (increment (resourceGuid s)) (map rawId (flats cs))"
    by (simp_all add: assignId_def)
  show "a = nextAddr s" by (rule b(1))
  show "a < nextAddr s'" using b(1,2) by simp
  have "nextAddr s < nextAddr s'" using b(2) by simp
  then have "[nextAddr s ..< nextAddr s'] = nextAddr s # [Suc (nextAddr s) ..< nextAddr s']"
    by (rule upt_conv_Cons)
  with b(3) show "res_id (heap s' a) = ''_fc'' @ string_of_nat (resourceGuid s)"
    unfolding b(1) by (simp add: builtIds_def)
  show "increment (resourceGuid s) \<le> resourceGuid s'"
    using b(4) guidAfter_le[of "increment (resourceGuid s)" "map rawId (flats cs)"] by simp
qed

section \<open>The shape of what a build creates\<close>


lemma root_treeAt [simp]: "root (treeAt n r) = n"
  by (cases r) simp



section \<open>Indexing a tree of the store\<close>

lemma extends_refl [simp]: "extends idx idx"
  by (simp add: extends_def)








section \<open>The tree attach contract\<close>




section \<open>Removing an id that is not indexed\<close>

text \<open>
  Claim C8. After a fetch has been initiated and has resolved, \<open>removeResource\<close> with
  an id that the index does not hold leaves the manager as it was: the index, the tree
  and the store are unchanged and no \<open>remove\<close> event (no event at all) is emitted.
  The call returns, unless the id is the name of a property that the index object
  inherits from \<open>Object.prototype\<close>: then it throws a \<open>TypeError\<close>, in the state in
  which it was called.
\<close>

theorem removeResource_missing_id:
  assumes "isFetchingInitiated s" and "isFetchingResolved s"
    and "map_of (resourcesById s) (resourceIdOf arg s) = None"
  shows "removeResource arg s =
           (if resourceIdOf arg s \<in> set objectPrototypeKeys then Inl (Throws TypeError s)
            else Inr s)"
  using assms
  by (simp add: removeResource_def whenFetchingResolved_def runCallback_def removeResourceNow_def
      removeResourceFromIndex.simps propertyOf_def)

theorem removeResource_missing_id_witness:
  "isFetchingInitiated (loaded [RawInput (Some ''a'') None False []]) \<and>
   isFetchingResolved (loaded [RawInput (Some ''a'') None False []]) \<and>
   map_of (resourcesById (loaded [RawInput (Some ''a'') None False []]))
     (resourceIdOf (IdArg ''x'') (loaded [RawInput (Some ''a'') None False []])) = None \<and>
   removeResource (IdArg ''x'') (loaded [RawInput (Some ''a'') None False []]) =
     Inr (loaded [RawInput (Some ''a'') None False []]) \<and>
   map_of (resourcesById (loaded [RawInput (Some ''a'') None False []]))
     (resourceIdOf (IdArg ''toString'') (loaded [RawInput (Some ''a'') None False []])) = None \<and>
   removeResource (IdArg ''toString'') (loaded [RawInput (Some ''a'') None False []]) =
     Inl (Throws TypeError (loaded [RawInput (Some ''a'') None False []]))"
proof -
  let ?s = "loaded [RawInput (Some ''a'') None False []]"
  have 1: "isFetchingInitiated ?s" by (simp add: eval_defs)
  have 2: "isFetchingResolved ?s" by (simp add: eval_defs)
  have 3: "map_of (resourcesById ?s) (resourceIdOf (IdArg ''x'') ?s) = None"
    by (simp add: eval_defs)
  have 4: "map_of (resourcesById ?s) (resourceIdOf (IdArg ''toString'') ?s) = None"
    by (simp add: eval_defs)
  have x: "resourceIdOf (IdArg ''x'') ?s \<notin> set objectPrototypeKeys"
    by (simp add: resourceIdOf_def objectPrototypeKeys_def)
  have t: "resourceIdOf (IdArg ''toString'') ?s \<in> set objectPrototypeKeys"
    by (simp add: resourceIdOf_def objectPrototypeKeys_def)
  from removeResource_missing_id[OF 1 2 3] x
  have 5: "removeResource (IdArg ''x'') ?s = Inr ?s" by simp
  from removeResource_missing_id[OF 1 2 4] t
  have 6: "removeResource (IdArg ''toString'') ?s = Inl (Throws TypeError ?s)" by simp
  from 1 2 3 5 4 6 show ?thesis by (intro conjI)
qed

section \<open>The lifecycle event of the first load\<close>

text \<open>
  Claim C4 says that the first successful load after construction emits \<open>set\<close>. The
  constructor calls \<open>initializeCache\<close>, so \<open>topLevelResources\<close> is the empty array and
  not \<open>null\<close> when the first \<open>setResources\<close> computes \<open>wasSet\<close>: a successful
  \<open>setResources\<close> on a manager as constructed emits \<open>reset\<close>, followed by the public
  \<open>resourcesSet\<close> notification, and nothing else.
\<close>

theorem first_load_emits_reset:
  assumes "setResources d (constructed h n g cal) = Inr s'"
  shows "events s' = [Trigger ''reset'' (topLevelResources s'),
                      PubliclyTrigger ''resourcesSet'' (topLevelResources s')]"
  using setResources_events[OF assms]
  by (simp add: constructed_def initializeCache_def)

theorem first_load_emits_reset_witness:
  "setResources (DataArray [RawInput (Some ''a'') None False []])
      (constructed (\<lambda>a. emptyResource) 0 1 (calendarWith SourceFunction)) =
     Inr (projr (setResources (DataArray [RawInput (Some ''a'') None False []])
      (constructed (\<lambda>a. emptyResource) 0 1 (calendarWith SourceFunction)))) \<and>
   events (projr (setResources (DataArray [RawInput (Some ''a'') None False []])
      (constructed (\<lambda>a. emptyResource) 0 1 (calendarWith SourceFunction)))) =
     [Trigger ''reset'' (Some [0]), PubliclyTrigger ''resourcesSet'' (Some [0])]"
proof -
  let ?r = "setResources (DataArray [RawInput (Some ''a'') None False []])
      (constructed (\<lambda>a. emptyResource) 0 1 (calendarWith SourceFunction))"
  have 1: "?r = Inr (projr ?r)" by (simp add: eval_defs)
  have 2: "topLevelResources (projr ?r) = Some [0]" by (simp add: eval_defs)
  from first_load_emits_reset[OF 1] 1 2 show ?thesis by simp
qed

section \<open>Reuse of the fetched range\<close>

text \<open>
  Claim C3 says that two calls of \<open>getResources\<close> with calendar-equal ranges resolve
  the source once. \<open>getResources\<close> compares the requested range with \<open>currentStart\<close>
  and \<open>currentEnd\<close>, which no method assigns. From construction on, two calls with
  the same present range resolve the source twice; two calls without a range resolve it
  once.
\<close>

theorem equal_present_ranges_resolve_twice:
  "(getResources (Some a) (Some b) cb1 (constructed h n g cal) = Inr s1 \<and>
    getResources (Some a) (Some b) cb2 s1 = Inr s2 \<longrightarrow> resolutions s2 = 2) \<and>
   (getResources None e1 cb1 (constructed h n g cal) = Inr t1 \<and>
    getResources None e2 cb2 t1 = Inr t2 \<longrightarrow> resolutions t2 = 1)"
proof (intro conjI impI)
  let ?c = "constructed h n g cal"
  have c: "currentStart ?c = None" "\<not> isFetchingInitiated ?c" "resolutions ?c = 0"
    by (simp_all add: constructed_def initializeCache_def resolutions_def)
  {
    assume "getResources (Some a) (Some b) cb1 ?c = Inr s1 \<and> getResources (Some a) (Some b) cb2 s1 = Inr s2"
    then have 1: "getResources (Some a) (Some b) cb1 ?c = Inr s1"
      and 2: "getResources (Some a) (Some b) cb2 s1 = Inr s2" by simp_all
    from 1 c have f1: "fetchResources (Some a) (Some b) cb1 ?c = Inr s1"
      by (simp add: getResources_def isSameRange_def)
    from fetchResources_grows[OF f1] c have s1: "currentStart s1 = None" "resolutions s1 = 1"
      by (simp_all add: grows_def)
    from 2 s1 have f2: "fetchResources (Some a) (Some b) cb2 s1 = Inr s2"
      by (simp add: getResources_def isSameRange_def)
    from fetchResources_grows[OF f2] s1 show "resolutions s2 = 2" by simp
  }
  {
    assume "getResources None e1 cb1 ?c = Inr t1 \<and> getResources None e2 cb2 t1 = Inr t2"
    then have 1: "getResources None e1 cb1 ?c = Inr t1"
      and 2: "getResources None e2 cb2 t1 = Inr t2" by simp_all
    from 1 c have f1: "fetchResources None e1 cb1 ?c = Inr t1"
      by (simp add: getResources_def isSameRange_def)
    from fetchResources_grows[OF f1] c have t1: "currentStart t1 = None" "resolutions t1 = 1"
      by (simp_all add: grows_def)
    from fetchResources_coordinator[OF f1] have "isFetchingInitiated t1" by simp
    with 2 t1 have "whenFetchingResolved cb2 t1 = Inr t2"
      by (simp add: getResources_def isSameRange_def)
    from whenFetchingResolved_grows[OF this] t1 show "resolutions t2 = 1" by simp
  }
qed

theorem equal_present_ranges_resolve_twice_witness:
  "getResources (Some 1) (Some 2) (UserCallback 0)
     (newManager (calendarWith (SourceArray [RawInput (Some ''a'') None False []]))) = Inr sameRangeOnce \<and>
   getResources (Some 1) (Some 2) (UserCallback 1) sameRangeOnce = Inr sameRangeTwice \<and>
   resolutions sameRangeTwice = 2 \<and>
   getResources None None (UserCallback 0)
     (newManager (calendarWith (SourceArray [RawInput (Some ''a'') None False []]))) = Inr noRangeOnce \<and>
   getResources None None (UserCallback 1) noRangeOnce = Inr noRangeTwice \<and>
   resolutions noRangeTwice = 1"
proof -
  let ?c = "calendarWith (SourceArray [RawInput (Some ''a'') None False []])"
  have 1: "getResources (Some 1) (Some 2) (UserCallback 0)
             (constructed (\<lambda>a. emptyResource) 0 1 ?c) = Inr sameRangeOnce"
    by (simp add: sameRangeOnce_def eval_defs)
  have 2: "getResources (Some 1) (Some 2) (UserCallback 1) sameRangeOnce = Inr sameRangeTwice"
    by (simp add: sameRangeTwice_def sameRangeOnce_def eval_defs)
  have 3: "getResources None None (UserCallback 0)
             (constructed (\<lambda>a. emptyResource) 0 1 ?c) = Inr noRangeOnce"
    by (simp add: noRangeOnce_def eval_defs)
  have 4: "getResources None None (UserCallback 1) noRangeOnce = Inr noRangeTwice"
    by (simp add: noRangeTwice_def noRangeOnce_def eval_defs)
  from equal_present_ranges_resolve_twice[of 1 2 "UserCallback 0" "\<lambda>a. emptyResource" 0 1 ?c
      sameRangeOnce "UserCallback 1" sameRangeTwice None noRangeOnce None noRangeTwice] 1 2 3 4
  show ?thesis by (simp add: newManager_def)
qed

section \<open>Failure of a remote source\<close>

text \<open>
  Claim C5 says that an unparsable response of a remote source ends in the empty list,
  the error hook and no exception. When the request ends without error, the response has
  no parsed body and its text is not JSON, \<open>JSON.parse(res.text)\<close> throws inside the
  handler: the \<open>SyntaxError\<close> leaves the handler, the error hook is not called and the
  callback of the fetch is not called: the exception is thrown right after
  \<open>popLoading\<close>.
\<close>

theorem unparsable_text_throws:
  assumes "err = None" and "res = Some r" and "body r = DataFalsy"
    and "text_of r \<noteq> []" and "parse (text_of r) = None"
  shows "requestEnd parse g src err res s = Inl (Throws SyntaxError (emit PopLoading s))"
  using assms by (simp add: requestEnd_def parsedInputs_def Let_def)

theorem unparsable_text_throws_witness:
  "body \<lparr>body = DataFalsy, text_of = ''<html>''\<rparr> = DataFalsy \<and>
   text_of \<lparr>body = DataFalsy, text_of = ''<html>''\<rparr> \<noteq> [] \<and>
   parseExample (text_of \<lparr>body = DataFalsy, text_of = ''<html>''\<rparr>) = None \<and>
   requestEnd parseExample 1 remoteExample None (Some \<lparr>body = DataFalsy, text_of = ''<html>''\<rparr>)
     (projr (fetchResources None None (UserCallback 0)
               (newManager (calendarWith (SourceObject remoteExample))))) =
     Inl (Throws SyntaxError
            (emit PopLoading
               (projr (fetchResources None None (UserCallback 0)
                         (newManager (calendarWith (SourceObject remoteExample)))))))"
proof -
  let ?r = "\<lparr>body = DataFalsy, text_of = ''<html>''\<rparr>"
  have 1: "body ?r = DataFalsy" by simp
  have 2: "text_of ?r \<noteq> []" by simp
  have 3: "parseExample (text_of ?r) = None" by (simp add: parseExample_def)
  from unparsable_text_throws[of None "Some ?r" ?r parseExample, OF refl refl 1 2 3] 1 2 3
  show ?thesis by simp
qed

text \<open>The failures that do degrade: a transport error, and a response without error
  that has neither a parsed body nor a text, or whose text parses to a falsy value. The
  error hook, when the descriptor has one, is called with the error and the response,
  and the callback of the fetch receives the empty array.\<close>

lemma remote_failure_degrades:
  assumes "err \<noteq> None \<or>
           (res = Some r \<and> body r = DataFalsy \<and>
            (text_of r = [] \<or> parse (text_of r) = Some DataFalsy))"
  shows "requestEnd parse g src err res s =
           fetchCallback g (DataArray [])
             (if hasErrorHook src then emit (ErrorHookCalled err res) (emit PopLoading s)
              else emit PopLoading s)"
  using assms by (auto simp: requestEnd_def parsedInputs_def Let_def)

section \<open>Stale fetches\<close>

















section \<open>The index removal contract\<close>



lemma without_empty [simp]: "without {} idx = idx"
  by (simp add: without_def)


lemma reachIds_not_D: "x \<in> reachIds h idx D S \<Longrightarrow> x \<notin> D"
  by (induction rule: reachIds.induct) auto




lemma reachIds_empty_start [simp]: "reachIds h idx D {} = {}"
proof -
  have "x \<in> reachIds h idx D {} \<Longrightarrow> False" for x
    by (induction rule: reachIds.induct) simp_all
  then show ?thesis by blast
qed






section \<open>Every call keeps the ids and never lowers the counter\<close>

lemma perform_thrown:
  assumes "perform parse op s = Inl (Throws e s')"
  shows "grows s s'"
proof (cases op)
  case (GetResources start endDate cb)
  with assms have "getResources start endDate cb s = Inl (Throws e s')" by simp
  then show ?thesis by (rule getResources_thrown)
next
  case (FetchResources start endDate cb)
  with assms have "fetchResources start endDate cb s = Inl (Throws e s')" by simp
  then show ?thesis by (rule fetchResources_thrown)
next
  case (WhenFetchingResolved cb)
  with assms have "whenFetchingResolved cb s = Inl (Throws e s')" by simp
  from dataStep_grows[OF whenFetchingResolved_thrown[OF this]] show ?thesis .
next
  case (FunctionSourceCompletes g d)
  with assms have "fetchCallback g d (emit PopLoading s) = Inl (Throws e s')"
    by (simp add: functionSourceCompletes_def)
  from fetchCallback_thrown[OF this] have "grows (emit PopLoading s) s'" by simp
  from grows_trans[OF grows_emit this] show ?thesis .
next
  case (RequestEnd g src err res)
  with assms have "requestEnd parse g src err res s = Inl (Throws e s')" by simp
  then show ?thesis by (rule requestEnd_thrown)
next
  case InitializeCache
  with assms show ?thesis by simp
next
  case (SetResources d)
  with assms have "setResources d s = Inl (Throws e s')" by simp
  from quietStep_grows[OF setResources_thrown[OF this]] show ?thesis .
next
  case ResetCurrentResources
  with assms show ?thesis by simp
next
  case Clear
  with assms show ?thesis by simp
next
  case (AddResource resourceInput cb)
  show ?thesis
  proof (cases "isFetchingInitiated s")
    case True
    with AddResource assms
    have "whenFetchingResolved (AddResourceClosure resourceInput cb) s = Inl (Throws e s')"
      by (simp add: addResource_def)
    from dataStep_grows[OF whenFetchingResolved_thrown[OF this]] show ?thesis .
  next
    case False
    with AddResource assms show ?thesis by (simp add: addResource_def)
  qed
next
  case (AddResourceToIndex a)
  with assms show ?thesis by (simp split: option.splits)
next
  case (AddResourceToTree a)
  with assms have "addResourceToTree a s = Inl (Throws e s')"
    by (cases "addResourceToTree a s") simp_all
  from quietStep_grows[OF addResourceToTree_thrown[OF this]] show ?thesis .
next
  case (RemoveResource arg)
  show ?thesis
  proof (cases "isFetchingInitiated s")
    case True
    with RemoveResource assms
    have "whenFetchingResolved (RemoveResourceClosure (resourceIdOf arg s)) s = Inl (Throws e s')"
      by (simp add: removeResource_def Let_def)
    from dataStep_grows[OF whenFetchingResolved_thrown[OF this]] show ?thesis .
  next
    case False
    with RemoveResource assms show ?thesis by (simp add: removeResource_def Let_def)
  qed
next
  case (RemoveResourceFromIndex k)
  with assms obtain idx where "s' = s\<lparr>resourcesById := idx\<rparr>"
    by (auto split: sum.splits)
  then show ?thesis by (simp add: grows_def)
next
  case (RemoveResourceFromTree a)
  with assms have "s' = s" by (auto split: option.splits)
  then show ?thesis by simp
next
  case (BuildResource resourceInput)
  with assms show ?thesis by simp
next
  case (TriggerEvent ev)
  with assms show ?thesis by simp
qed

lemma perform_outcome:
  assumes "outcome (perform parse op s) = Some s'"
  shows "grows s s'"
proof (cases "perform parse op s")
  case (Inr t)
  with assms have "perform parse op s = Inr s'" by simp
  then show ?thesis by (rule perform_grows)
next
  case (Inl x)
  show ?thesis
  proof (cases x)
    case (Throws e t)
    with Inl assms have "perform parse op s = Inl (Throws e s')" by simp
    then show ?thesis by (rule perform_thrown)
  next
    case Overflows
    with Inl assms show ?thesis by simp
  qed
qed

lemma processGrows_refl [simp]: "processGrows p p"
  by (simp add: processGrows_def)

lemma processGrows_trans:
  assumes "processGrows p q" and "processGrows q r"
  shows "processGrows p r"
proof -
  have ids: "\<forall>a. a < firstFree p \<longrightarrow> res_id (store r a) = res_id (store p a)"
    using assms unfolding processGrows_def by (metis less_le_trans)
  from assms ids show ?thesis
    unfolding processGrows_def by (metis le_trans)
qed

lemma grows_leave:
  assumes "grows (enter p i) m"
  shows "processGrows p (leave p i m)"
  using assms by (simp add: grows_def enter_def leave_def processGrows_def)

lemma stepProcess_grows:
  assumes "stepProcess parse st p = Some p'"
  shows "processGrows p p'"
proof (cases st)
  case (Construct cal)
  with assms have "p' = p\<lparr>instances := instances p @ [constructed (store p) (firstFree p) (counter p) cal]\<rparr>"
    by simp
  then show ?thesis by (simp add: processGrows_def)
next
  case (Call i op)
  show ?thesis
  proof (cases "i < length (instances p)")
    case False
    with Call assms show ?thesis by simp
  next
    case True
    with Call assms obtain m where
      m: "outcome (perform parse op (enter p i)) = Some m" and p': "p' = leave p i m"
      by (auto split: option.splits)
    from grows_leave[OF perform_outcome[OF m]] p' show ?thesis by simp
  qed
qed

lemma runProcess_grows: "runProcess parse sts p = Some p' \<Longrightarrow> processGrows p p'"
proof (induction sts arbitrary: p)
  case Nil
  then show ?case by simp
next
  case (Cons st sts)
  from Cons.prems obtain q where 1: "stepProcess parse st p = Some q"
    and 2: "runProcess parse sts q = Some p'"
    by (auto split: option.splits)
  from stepProcess_grows[OF 1] Cons.IH[OF 2] show ?case by (rule processGrows_trans)
qed

lemma guidAfter_bound: "guidAfter g xs \<le> g + length xs"
proof (induction xs arbitrary: g)
  case Nil
  show ?case by simp
next
  case (Cons i xs)
  have "snd (assignId i g) \<le> Suc g" by (cases i) (simp_all add: assignId_def increment_def)
  with Cons[of "snd (assignId i g)"] show ?case by simp
qed

section \<open>Generated ids\<close>

text \<open>
  Claim C9, with the bound of the counter. A raw input without id gets the id \<open>_fc\<close>
  followed by the value of the counter, and the counter is incremented; below
  \<open>2\<^sup>5\<^sup>3\<close> it is greater afterwards. The counter belongs to the process: no sequence
  of constructions of managers and of calls of their methods (\<open>clear\<close>,
  \<open>initializeCache\<close> and \<open>setResources\<close> among them, calls that end in an
  exception included) makes it smaller or changes the id of an existing resource. Hence
  two resources built from inputs without id, by any two managers of the process and
  with any such sequence between the two builds, have different ids, provided that the
  counter was below \<open>2\<^sup>5\<^sup>3\<close> at the first build. Within one build of a list of
  inputs (\<open>setResources\<close>; the single input of \<open>addResource\<close> is a list of one) the
  resources created, in the order of creation, have the ids \<open>assignIds\<close> of the raw
  ids of the inputs and their descendants, and any two of them that were built from an
  input without id have different ids, provided that the counter and the number of
  resources built together do not exceed \<open>2\<^sup>5\<^sup>3\<close>.
\<close>

theorem generated_ids_unique:
  "(rawId r = None \<and> buildResource r s = (a, s') \<longrightarrow>
      res_id (heap s' a) = ''_fc'' @ string_of_nat (resourceGuid s) \<and>
      increment (resourceGuid s) \<le> resourceGuid s' \<and>
      (resourceGuid s < maxCounter \<longrightarrow> resourceGuid s < resourceGuid s')) \<and>
   (runProcess parse steps p = Some p' \<longrightarrow> counter p \<le> counter p') \<and>
   (rawId r1 = None \<and> rawId r2 = None \<and> counter q < maxCounter \<and>
      i < length (instances q) \<and> buildResource r1 (enter q i) = (a1, m1) \<and>
      runProcess parse steps (leave q i m1) = Some q' \<and>
      j < length (instances q') \<and> buildResource r2 (enter q' j) = (a2, m2) \<longrightarrow>
      res_id (heap m2 a1) \<noteq> res_id (heap m2 a2)) \<and>
   (buildResources inputs v = (as, v') \<longrightarrow>
      builtIds v v' = assignIds (resourceGuid v) (map rawId (flats inputs)) \<and>
      (resourceGuid v + length (flats inputs) \<le> maxCounter \<longrightarrow>
       (\<forall>n m. n < m \<and> m < length (flats inputs) \<and>
              rawId (flats inputs ! n) = None \<and> rawId (flats inputs ! m) = None \<longrightarrow>
              builtIds v v' ! n \<noteq> builtIds v v' ! m)))"
proof -
  have c1: "rawId r = None \<and> buildResource r s = (a, s') \<longrightarrow>
      res_id (heap s' a) = ''_fc'' @ string_of_nat (resourceGuid s) \<and>
      increment (resourceGuid s) \<le> resourceGuid s' \<and>
      (resourceGuid s < maxCounter \<longrightarrow> resourceGuid s < resourceGuid s')"
  proof
    assume h: "rawId r = None \<and> buildResource r s = (a, s')"
    then have n: "rawId r = None" and b: "buildResource r s = (a, s')" by simp_all
    note g = buildResource_generated[OF n b]
    have "resourceGuid s < maxCounter \<longrightarrow> resourceGuid s < resourceGuid s'"
      using g(4) by (auto simp: increment_def split: if_splits)
    with g(3,4) show "res_id (heap s' a) = ''_fc'' @ string_of_nat (resourceGuid s) \<and>
      increment (resourceGuid s) \<le> resourceGuid s' \<and>
      (resourceGuid s < maxCounter \<longrightarrow> resourceGuid s < resourceGuid s')" by simp
  qed
  have c2: "runProcess parse steps p = Some p' \<longrightarrow> counter p \<le> counter p'"
    using runProcess_grows[of parse steps p p'] by (simp add: processGrows_def)
  have c3: "rawId r1 = None \<and> rawId r2 = None \<and> counter q < maxCounter \<and>
      i < length (instances q) \<and> buildResource r1 (enter q i) = (a1, m1) \<and>
      runProcess parse steps (leave q i m1) = Some q' \<and>
      j < length (instances q') \<and> buildResource r2 (enter q' j) = (a2, m2) \<longrightarrow>
      res_id (heap m2 a1) \<noteq> res_id (heap m2 a2)"
  proof
    assume h: "rawId r1 = None \<and> rawId r2 = None \<and> counter q < maxCounter \<and>
      i < length (instances q) \<and> buildResource r1 (enter q i) = (a1, m1) \<and>
      runProcess parse steps (leave q i m1) = Some q' \<and>
      j < length (instances q') \<and> buildResource r2 (enter q' j) = (a2, m2)"
    then have n1: "rawId r1 = None" and n2: "rawId r2 = None"
      and below: "counter q < maxCounter"
      and b1: "buildResource r1 (enter q i) = (a1, m1)"
      and run: "runProcess parse steps (leave q i m1) = Some q'"
      and b2: "buildResource r2 (enter q' j) = (a2, m2)" by simp_all
    note g1 = buildResource_generated[OF n1 b1]
    note g2 = buildResource_generated[OF n2 b2]
    have e: "resourceGuid (enter q i) = counter q" "resourceGuid (enter q' j) = counter q'"
      "nextAddr (enter q' j) = firstFree q'" "heap (enter q' j) = store q'"
      by (simp_all add: enter_def)
    have l: "counter (leave q i m1) = resourceGuid m1" "firstFree (leave q i m1) = nextAddr m1"
      "store (leave q i m1) = heap m1"
      by (simp_all add: leave_def)
    from runProcess_grows[OF run] l
    have gr: "resourceGuid m1 \<le> counter q'" "nextAddr m1 \<le> firstFree q'"
      "res_id (store q' a1) = res_id (heap m1 a1)"
      using g1(2) by (simp_all add: processGrows_def)
    have "res_id (heap m2 a1) = res_id (heap (enter q' j) a1)"
      using quietStep_ids[OF quietStep_build(1)[OF b2], of a1] g1(2) gr(2) e(3) by simp
    with gr(3) g1(3) e have 1: "res_id (heap m2 a1) = ''_fc'' @ string_of_nat (counter q)" by simp
    from g1(4) below e(1) have "counter q < resourceGuid m1"
      by (auto simp: increment_def split: if_splits)
    with gr(1) have "counter q \<noteq> counter q'" by simp
    from generated_ids_differ[OF this] 1 g2(3) e(2)
    show "res_id (heap m2 a1) \<noteq> res_id (heap m2 a2)" by simp
  qed
  have c4: "buildResources inputs v = (as, v') \<longrightarrow>
      builtIds v v' = assignIds (resourceGuid v) (map rawId (flats inputs)) \<and>
      (resourceGuid v + length (flats inputs) \<le> maxCounter \<longrightarrow>
       (\<forall>n m. n < m \<and> m < length (flats inputs) \<and>
              rawId (flats inputs ! n) = None \<and> rawId (flats inputs ! m) = None \<longrightarrow>
              builtIds v v' ! n \<noteq> builtIds v v' ! m))"
  proof
    assume b: "buildResources inputs v = (as, v')"
    from buildResources_ids[OF b]
    have e: "builtIds v v' = assignIds (resourceGuid v) (map rawId (flats inputs))" by simp
    have "resourceGuid v + length (flats inputs) \<le> maxCounter \<longrightarrow>
       (\<forall>n m. n < m \<and> m < length (flats inputs) \<and>
              rawId (flats inputs ! n) = None \<and> rawId (flats inputs ! m) = None \<longrightarrow>
              builtIds v v' ! n \<noteq> builtIds v v' ! m)"
    proof (intro allI impI)
      fix n m
      assume room: "resourceGuid v + length (flats inputs) \<le> maxCounter"
      assume nm: "n < m \<and> m < length (flats inputs) \<and>
             rawId (flats inputs ! n) = None \<and> rawId (flats inputs ! m) = None"
      have "guidAfter (resourceGuid v) (take n (map rawId (flats inputs))) \<le> resourceGuid v + n"
        using guidAfter_bound[of "resourceGuid v" "take n (map rawId (flats inputs))"] nm by simp
      with room nm have "guidAfter (resourceGuid v) (take n (map rawId (flats inputs))) < maxCounter"
        by simp
      with nm show "builtIds v v' ! n \<noteq> builtIds v v' ! m"
        unfolding e by (intro assignIds_generated_distinct) simp_all
    qed
    with e show "builtIds v v' = assignIds (resourceGuid v) (map rawId (flats inputs)) \<and>
      (resourceGuid v + length (flats inputs) \<le> maxCounter \<longrightarrow>
       (\<forall>n m. n < m \<and> m < length (flats inputs) \<and>
              rawId (flats inputs ! n) = None \<and> rawId (flats inputs ! m) = None \<longrightarrow>
              builtIds v v' ! n \<noteq> builtIds v v' ! m))" by simp
  qed
  from c1 c2 c3 c4 show ?thesis by (intro conjI)
qed

theorem generated_ids_unique_witness:
  "rawId anonymousInput = None \<and> counter twoManagers < maxCounter \<and>
   0 < length (instances twoManagers) \<and>
   buildResource anonymousInput (enter twoManagers 0) = (0, firstBuild) \<and>
   res_id (heap firstBuild 0) = ''_fc'' @ string_of_nat 1 \<and>
   resourceGuid firstBuild = 2 \<and>
   runProcess parseExample betweenBuilds (leave twoManagers 0 firstBuild) = Some laterProcess \<and>
   counter laterProcess = 3 \<and> 2 < length (instances laterProcess) \<and>
   buildResource anonymousInput (enter laterProcess 2) = (2, secondBuild) \<and>
   res_id (heap secondBuild 0) \<noteq> res_id (heap secondBuild 2) \<and>
   builtIds (newManager (calendarWith SourceFunction))
     (snd (buildResources [anonymousFamily, anonymousInput] (newManager (calendarWith SourceFunction)))) =
     [''_fc'' @ string_of_nat 1, ''_fc'' @ string_of_nat 2, ''x'', ''_fc'' @ string_of_nat 3] \<and>
   ''_fc'' @ string_of_nat 1 \<noteq> ''_fc'' @ string_of_nat 2"
proof -
  let ?s = "newManager (calendarWith SourceFunction)"
  let ?v' = "snd (buildResources [anonymousFamily, anonymousInput] ?s)"
  note ev = anonymousInput_def anonymousFamily_def twoManagers_def enter_def leave_def
    firstBuild_def betweenBuilds_def eval_defs
  have n: "rawId anonymousInput = None" by (simp add: anonymousInput_def)
  have below: "counter twoManagers < maxCounter" by (simp add: twoManagers_def maxCounter_def)
  have i: "0 < length (instances twoManagers)" by (simp add: twoManagers_def)
  have b1: "buildResource anonymousInput (enter twoManagers 0) = (0, firstBuild)"
    by (simp add: ev)
  have run: "runProcess parseExample betweenBuilds (leave twoManagers 0 firstBuild) = Some laterProcess"
    by (simp add: laterProcess_def ev)
  have g: "resourceGuid (enter twoManagers 0) = 1" "resourceGuid firstBuild = 2"
    "counter laterProcess = 3"
    by (simp_all add: laterProcess_def ev)
  have j: "2 < length (instances laterProcess)" by (simp add: laterProcess_def ev)
  have b2: "buildResource anonymousInput (enter laterProcess 2) = (2, secondBuild)"
    by (simp add: secondBuild_def laterProcess_def ev)
  have b4: "buildResources [anonymousFamily, anonymousInput] ?s =
              (fst (buildResources [anonymousFamily, anonymousInput] ?s), ?v')" by simp
  have fl: "map rawId (flats [anonymousFamily, anonymousInput]) = [None, None, Some ''x'', None]"
    by (simp add: anonymousInput_def anonymousFamily_def)
  have gs: "resourceGuid ?s = 1" by (simp add: eval_defs)
  note th = generated_ids_unique[where r = anonymousInput and s = "enter twoManagers 0" and a = 0
      and s' = firstBuild and parse = parseExample and steps = betweenBuilds
      and p = "leave twoManagers 0 firstBuild" and p' = laterProcess
      and ?r1.0 = anonymousInput and ?r2.0 = anonymousInput and q = twoManagers and i = 0
      and ?a1.0 = 0 and ?m1.0 = firstBuild and q' = laterProcess and j = 2 and ?a2.0 = 2
      and ?m2.0 = secondBuild
      and inputs = "[anonymousFamily, anonymousInput]" and v = ?s
      and as = "fst (buildResources [anonymousFamily, anonymousInput] ?s)" and v' = ?v']
  note c1 = th[THEN conjunct1]
  note c3 = th[THEN conjunct2, THEN conjunct2, THEN conjunct1]
  note c4 = th[THEN conjunct2, THEN conjunct2, THEN conjunct2]
  from c1 n b1 have "res_id (heap firstBuild 0) = ''_fc'' @ string_of_nat (resourceGuid (enter twoManagers 0))"
    by blast
  then have 1: "res_id (heap firstBuild 0) = ''_fc'' @ string_of_nat 1" unfolding g(1) .
  from c3 n below i b1 run j b2 have 3: "res_id (heap secondBuild 0) \<noteq> res_id (heap secondBuild 2)"
    by blast
  have room: "resourceGuid ?s + length (flats [anonymousFamily, anonymousInput]) \<le> maxCounter"
    by (simp add: gs anonymousInput_def anonymousFamily_def maxCounter_def)
  from c4 b4 have c4': "builtIds ?s ?v' =
       assignIds (resourceGuid ?s) (map rawId (flats [anonymousFamily, anonymousInput]))"
    and c4'': "resourceGuid ?s + length (flats [anonymousFamily, anonymousInput]) \<le> maxCounter \<longrightarrow>
       (\<forall>n m. n < m \<and> m < length (flats [anonymousFamily, anonymousInput]) \<and>
             rawId (flats [anonymousFamily, anonymousInput] ! n) = None \<and>
             rawId (flats [anonymousFamily, anonymousInput] ! m) = None \<longrightarrow>
             builtIds ?s ?v' ! n \<noteq> builtIds ?s ?v' ! m)" by blast+
  from c4' have 4: "builtIds ?s ?v' =
      [''_fc'' @ string_of_nat 1, ''_fc'' @ string_of_nat 2, ''x'', ''_fc'' @ string_of_nat 3]"
    unfolding fl gs
    by (simp add: assignId_def increment_def maxCounter_def numeral_2_eq_2 numeral_3_eq_3)
  have "(0::nat) < 1 \<and> 1 < length (flats [anonymousFamily, anonymousInput]) \<and>
             rawId (flats [anonymousFamily, anonymousInput] ! 0) = None \<and>
             rawId (flats [anonymousFamily, anonymousInput] ! 1) = None"
    by (simp add: anonymousInput_def anonymousFamily_def)
  with c4'' room have "builtIds ?s ?v' ! 0 \<noteq> builtIds ?s ?v' ! 1" by blast
  then have 5: "''_fc'' @ string_of_nat 1 \<noteq> ''_fc'' @ string_of_nat 2" unfolding 4 by simp
  from n below i b1 1 g(2) run g(3) j b2 3 4 5 show ?thesis by (intro conjI)
qed

text \<open>
  Claim C9 as stated has any two resources built without id receive distinct ids. The
  counter is a JavaScript number: at \<open>2\<^sup>5\<^sup>3\<close> the increment no longer changes it,
  and two resources built without id get the same id.
\<close>

theorem generated_ids_repeat:
  "rawId anonymousInput = None \<and>
   resourceGuid exhausted = maxCounter \<and>
   resourceGuid (snd (buildResource anonymousInput exhausted)) = maxCounter \<and>
   res_id (heap (snd (buildResources [anonymousInput, anonymousInput] exhausted)) 0) =
     ''_fc'' @ string_of_nat maxCounter \<and>
   res_id (heap (snd (buildResources [anonymousInput, anonymousInput] exhausted)) 1) =
     ''_fc'' @ string_of_nat maxCounter"
  by (simp add: exhausted_def anonymousInput_def eval_defs)

section \<open>Adding a resource whose parent cannot be found\<close>






end
